theory Spec2Isabelle
  imports Main "HOL-Library.Sublist" "HOL-Library.AList"
begin

section \<open>Tracking a Celery task and its subtasks: \<open>secator/celery_utils.py\<close>\<close>

text \<open>
  The class \<open>CeleryData\<close> walks a tree of Celery result handles, polls every task of the
  tree through the result backend and merges what it reads into one stream of snapshots.
  The broker, the renderer and the clock are collaborators: what they answer is a parameter
  of the model.
\<close>

subsection \<open>Result handles and the tree walker\<close>

text \<open>
  A read of the result backend either decodes (\<open>Fetched\<close>) or raises
  \<open>kombu.exceptions.DecodeError\<close> (\<open>Undecodable\<close>).

  A handle is \<open>None\<close>, an \<open>AsyncResult\<close> (identifier, children read from the backend: a list
  or \<open>None\<close>, parent) or a \<open>GroupResult\<close> (parent, member results; its \<open>children\<close> property is
  the member list). The first field is the truth value Python gives the object in a
  condition; it is decided by Celery, not by this file. A handle reachable along several
  paths occurs once for each path.
\<close>

datatype 'a fetched = Undecodable | Fetched 'a

datatype result =
    NoResult
  | AsyncResult bool string "result list option fetched" result
  | GroupResult bool result "result list"

fun truthy :: "result \<Rightarrow> bool" where
  "truthy NoResult = False"
| "truthy (AsyncResult t i ch p) = t"
| "truthy (GroupResult t p rs) = t"

text \<open>
  \<open>get_task_ids(result, ids)\<close> appends to the list \<open>ids\<close> in place and returns nothing; the
  model returns the list as the call leaves it. The \<open>try\<close> block covers the whole body, so a
  decode error ends the call where it is raised and the caller goes on.
\<close>

fun get_task_ids :: "result \<Rightarrow> string list \<Rightarrow> string list" where
  "get_task_ids NoResult ids = ids"
| "get_task_ids (GroupResult t p rs) ids =
     (let ids1 = get_task_ids p ids;
          ids2 = fold get_task_ids rs ids1
      in if truthy p then get_task_ids p ids2 else ids2)"
| "get_task_ids (AsyncResult t i ch p) ids =
     (let ids1 = (if i \<in> set ids then ids else ids @ [i])
      in case ch of
           Undecodable \<Rightarrow> ids1
         | Fetched None \<Rightarrow> (if truthy p then get_task_ids p ids1 else ids1)
         | Fetched (Some cs) \<Rightarrow>
             (let ids2 = fold get_task_ids cs ids1
              in if truthy p then get_task_ids p ids2 else ids2))"


text \<open>
  The identifiers of the \<open>AsyncResult\<close> handles that \<open>get_task_ids\<close> passes: the walk of a
  handle whose children cannot be decoded stops there, after its own identifier.
\<close>

fun visited_ids :: "result \<Rightarrow> string set" where
  "visited_ids NoResult = {}"
| "visited_ids (GroupResult t p rs) = visited_ids p \<union> (\<Union>r\<in>set rs. visited_ids r)"
| "visited_ids (AsyncResult t i ch p) =
     (case ch of
        Undecodable \<Rightarrow> {i}
      | Fetched None \<Rightarrow> (if truthy p then insert i (visited_ids p) else {i})
      | Fetched (Some cs) \<Rightarrow> insert i ((\<Union>r\<in>set cs. visited_ids r) \<union> (if truthy p then visited_ids p else {})))"





text \<open>
  The parameter \<open>ids=[]\<close> is evaluated once, when the function is defined: every call that
  leaves \<open>ids\<close> out works on that one list. The module state holds it; a call returns the
  accumulator as it leaves it, and the state.
\<close>

record module_state =
  ids_default :: "string list"

definition call_get_task_ids ::
  "result \<Rightarrow> string list option \<Rightarrow> module_state \<Rightarrow> string list \<times> module_state" where
  "call_get_task_ids r arg st =
     (case arg of
        Some ids \<Rightarrow> (get_task_ids r ids, st)
      | None \<Rightarrow>
          (let acc = get_task_ids r (ids_default st)
           in (acc, st\<lparr>ids_default := acc\<rparr>)))"

definition fresh_module :: module_state where
  "fresh_module = \<lparr>ids_default = []\<rparr>"

text \<open>A task group whose member \<open>c\<close> is also a child of the group's parent, with a \<open>None\<close> child.\<close>

definition leaf_c :: result where
  "leaf_c = AsyncResult True ''c'' (Fetched None) NoResult"




subsection \<open>Records, values and dictionaries\<close>

text \<open>
  An output record (\<open>secator/output_types\<close>, for instance \<open>Ip\<close>): this file reads its
  \<open>_type\<close> and \<open>_source\<close>, and \<open>percent\<close> of a record whose \<open>_type\<close> is \<open>progress\<close>; the other
  fields pass through (\<open>_uuid\<close> stands for them).
\<close>

record output_type =
  otype :: string
  osource :: string
  percent :: int
  ouuid :: string

text \<open>The values a task dictionary holds.\<close>

datatype pyval = PyNone | PyBool bool | PyInt int | PyStr string | PyList "output_type list"

fun truth :: "pyval \<Rightarrow> bool" where
  "truth PyNone = False"
| "truth (PyBool b) = b"
| "truth (PyInt i) = (i \<noteq> 0)"
| "truth (PyStr s) = (s \<noteq> [])"
| "truth (PyList xs) = (xs \<noteq> [])"

text \<open>
  A Python dictionary keeps its keys in insertion order: an association list with distinct
  keys; \<open>d[k] = v\<close> replaces the value of \<open>k\<close> where it stands or appends \<open>k\<close>, which is what
  \<open>AList.update\<close> does. \<open>d.update(other)\<close> stores the entries of \<open>other\<close> one after another.
\<close>

type_synonym dict = "(string \<times> pyval) list"

definition dict_update :: "dict \<Rightarrow> dict \<Rightarrow> dict" where
  "dict_update other d = fold (\<lambda>(k, v). AList.update k v) other d"

text \<open>
  \<open>ids_map\<close>: task identifier to descriptor. The descriptors are objects of the caller,
  one for each identifier; the functions below change them in place, so the map is passed
  along as the store of these objects and an identifier names the object it maps to.
\<close>

type_synonym ids_map = "(string \<times> dict) list"

definition put :: "string \<Rightarrow> dict \<Rightarrow> ids_map \<Rightarrow> ids_map" where
  "put task_id d m = (if map_of m task_id = None then m else AList.update task_id d m)"

definition descriptor :: "ids_map \<Rightarrow> string \<Rightarrow> dict" where
  "descriptor m task_id = (case map_of m task_id of None \<Rightarrow> [] | Some d \<Rightarrow> d)"

subsection \<open>The result backend\<close>

text \<open>
  An exception object, by its class: \<open>kombu.exceptions.DecodeError\<close>, the exceptions of
  Python this file can raise itself, and an exception of any other class (with its message),
  as a failed remote task stores it.
\<close>

datatype error = DecodeError | RemoteError string | KeyError string | TypeError | AttributeError

text \<open>
  \<open>res.info\<close> is an exception object, a list of records, a dictionary of metadata or
  something else (\<open>None\<close> for a pending task).
\<close>

datatype info = InfoException error | InfoList "output_type list" | InfoDict dict | InfoOther

text \<open>
  What \<open>AsyncResult(task_id)\<close> gives during one data pass: the truth value of the handle,
  and what reading \<open>res.state\<close> and \<open>res.info\<close> returns.
\<close>

record async_result =
  res_true :: bool
  res_state :: "string fetched"
  res_info :: "info fetched"

type_synonym backend = "string \<Rightarrow> async_result"

subsection \<open>\<open>get_task_data\<close>\<close>

definition terminal_states :: "pyval list" where
  "terminal_states = [PyStr ''FAILURE'', PyStr ''SUCCESS'', PyStr ''REVOKED'']"

text \<open>
  Lines 202 to 213: the three shapes of \<open>info\<close>. The result is the exception raised, if any,
  and the dictionary as the code leaves it. \<open>raise info\<close> raises the stored exception object
  itself. \<open>data['name']\<close> stands in the condition of the comprehension of line 209, so it is
  read once for each record: on a descriptor without a name it raises \<open>KeyError\<close> at the first
  record, after \<open>results\<close> is stored, and it is not read at all for an empty list.
\<close>

definition classify :: "info \<Rightarrow> dict \<Rightarrow> error option \<times> dict" where
  "classify payload data =
     (case payload of
        InfoException e \<Rightarrow> (Some e, data)
      | InfoList recs \<Rightarrow>
          (let data1 = AList.update ''results'' (PyList recs) data;
               errors = filter (\<lambda>e. otype e = ''error'') recs
           in if recs \<noteq> [] \<and> map_of data1 ''name'' = None
              then (Some (KeyError ''name''), data1)
              else (let data2 = AList.update ''count''
                          (PyInt (int (length
                             (filter (\<lambda>c. map_of data1 ''name'' = Some (PyStr (osource c))) recs))))
                          data1
                    in (None, AList.update ''state''
                          (PyStr (if errors \<noteq> [] then ''FAILURE'' else ''SUCCESS'')) data2)))
      | InfoDict meta \<Rightarrow> (None, dict_update meta data)
      | InfoOther \<Rightarrow> (None, data))"

text \<open>
  Lines 216 to 222: the ready flag and the progress. Iterating \<open>data['results']\<close> raises when
  a metadata dictionary has put a true value there that is not a list of records.
\<close>

definition set_ready :: "dict \<Rightarrow> error option \<times> dict" where
  "set_ready data =
     (case map_of data ''state'' of
        None \<Rightarrow> (Some (KeyError ''state''), data)
      | Some st \<Rightarrow>
          (let ready = (st \<in> set terminal_states);
               data1 = AList.update ''ready'' (PyBool ready) data
           in if ready then (None, AList.update ''progress'' (PyInt 100) data1)
              else (case map_of data1 ''results'' of
                      None \<Rightarrow> (Some (KeyError ''results''), data1)
                    | Some rv \<Rightarrow>
                        (if \<not> truth rv then (None, data1)
                         else (case rv of
                                 PyList rs \<Rightarrow>
                                   (let progresses = filter (\<lambda>e. otype e = ''progress'') rs
                                    in if progresses \<noteq> []
                                       then (None, AList.update ''progress''
                                               (PyInt (percent (last progresses))) data1)
                                       else (None, data1))
                               | PyStr s \<Rightarrow> (Some AttributeError, data1)
                               | _ \<Rightarrow> (Some TypeError, data1))))))"

datatype 'a outcome = Raises error | Returns 'a

text \<open>
  \<open>get_task_data(task_id, ids_map)\<close>: \<open>data\<close> is the descriptor object of \<open>ids_map\<close> itself (a new
  empty dictionary when the identifier is unknown), so every store into \<open>data\<close> is a store
  into \<open>ids_map\<close>, also when the call ends with an exception. The result is \<open>None\<close> for a false
  handle, else the dictionary.
\<close>

definition get_task_data ::
  "backend \<Rightarrow> string \<Rightarrow> ids_map \<Rightarrow> dict option outcome \<times> ids_map" where
  "get_task_data backend task_id m =
     (let data = descriptor m task_id;
          res = backend task_id
      in if \<not> res_true res then (Returns None, m)
         else (case res_state res of
                 Undecodable \<Rightarrow> (Raises DecodeError, m)
               | Fetched st \<Rightarrow>
                   (let data1 = dict_update
                          [(''state'', PyStr st), (''ready'', PyBool False), (''results'', PyList [])]
                          data
                    in case res_info res of
                         Undecodable \<Rightarrow> (Raises DecodeError, put task_id data1 m)
                       | Fetched payload \<Rightarrow>
                           (case classify payload data1 of
                              (Some e, data2) \<Rightarrow> (Raises e, put task_id data2 m)
                            | (None, data2) \<Rightarrow>
                                (case set_ready data2 of
                                   (Some e, data3) \<Rightarrow> (Raises e, put task_id data3 m)
                                 | (None, data3) \<Rightarrow>
                                     (Returns (Some data3), put task_id data3 m))))))"

subsection \<open>\<open>get_all_data\<close>\<close>

text \<open>
  The arguments of the \<open>debug('POLL', ...)\<close> call are evaluated before the call: the keys
  \<open>id\<close>, \<open>full_name\<close>, \<open>state\<close> and \<open>count\<close> are read in this order, and \<open>full_name\<close> becomes a
  dictionary key, which a list cannot be.
\<close>

definition debug_poll :: "dict \<Rightarrow> error option" where
  "debug_poll data =
     (if map_of data ''id'' = None then Some (KeyError ''id'')
      else (case map_of data ''full_name'' of
              None \<Rightarrow> Some (KeyError ''full_name'')
            | Some fn \<Rightarrow>
                if map_of data ''state'' = None then Some (KeyError ''state'')
                else if map_of data ''count'' = None then Some (KeyError ''count'')
                else (case fn of PyList xs \<Rightarrow> Some TypeError | _ \<Rightarrow> None)))"

text \<open>
  A yielded snapshot is a reference to a descriptor object: the identifier that names the
  object, with the contents the consumer finds there when it is yielded.
\<close>

type_synonym emission = "string \<times> dict"

text \<open>
  The \<open>for\<close> loop of lines 140 to 152: the snapshots yielded, the list \<open>datas\<close> (references),
  the exception that ended the loop, if any, and the store.
\<close>

fun collect ::
  "backend \<Rightarrow> string list \<Rightarrow> ids_map \<Rightarrow> emission list \<times> string list \<times> error option \<times> ids_map" where
  "collect backend [] m = ([], [], None, m)"
| "collect backend (task_id # task_ids) m =
     (case get_task_data backend task_id m of
        (Raises e, m1) \<Rightarrow> ([], [], Some e, m1)
      | (Returns None, m1) \<Rightarrow> collect backend task_ids m1
      | (Returns (Some data), m1) \<Rightarrow>
          (if data = [] then collect backend task_ids m1
           else (case debug_poll data of
                   Some e \<Rightarrow> ([], [], Some e, m1)
                 | None \<Rightarrow>
                     (case collect backend task_ids m1 of
                        (ys, datas, err, m2) \<Rightarrow> ((task_id, data) # ys, task_id # datas, err, m2)))))"

definition is_ready :: "dict \<Rightarrow> bool" where
  "is_ready data = (map_of data ''ready'' = Some (PyBool True))"

text \<open>
  Lines 155 to 162. Every element of \<open>datas\<close> is a non-empty dictionary whose \<open>ready\<close> is the
  Boolean stored by \<open>get_task_data\<close>, read when the sum is taken.
  \<open>int(count_finished * 100 / total)\<close> divides two integers as floats and truncates; with
  \<open>0 \<le> count_finished \<le> total\<close> that is the integer quotient. \<open>datas[-1]\<close> is the last
  descriptor object itself: its \<open>progress\<close> is overwritten and it is yielded again.
\<close>

definition get_all_data ::
  "backend \<Rightarrow> ids_map \<Rightarrow> emission list \<times> error option \<times> ids_map" where
  "get_all_data backend m =
     (case collect backend (map fst m) m of
        (ys, datas, Some e, m1) \<Rightarrow> (ys, Some e, m1)
      | (ys, datas, None, m1) \<Rightarrow>
          (if datas = [] then (ys, None, m1)
           else (let total = length datas;
                     count_finished = length (filter (\<lambda>i. is_ready (descriptor m1 i)) datas);
                     pct = (if total > 0 then int ((count_finished * 100) div total) else 0);
                     data = AList.update ''progress'' (PyInt pct) (descriptor m1 (last datas))
                 in (ys @ [(last datas, data)], None, put (last datas) data m1))))"

subsection \<open>\<open>poll\<close> and \<open>iter_results\<close>\<close>

text \<open>
  What the collaborators answer in cycle \<open>c\<close> of the loop: the backend during the first data
  pass, \<open>result.ready()\<close> of the root handle, the backend during the pass that follows a
  true answer.
\<close>

record world =
  first_pass :: "nat \<Rightarrow> backend"
  root_ready :: "nat \<Rightarrow> bool fetched"
  final_pass :: "nat \<Rightarrow> backend"

datatype status = Polling | Finished | Aborted error

definition carry_on ::
  "emission list \<Rightarrow> emission list \<times> status \<times> ids_map \<Rightarrow> emission list \<times> status \<times> ids_map" where
  "carry_on ys rest = (case rest of (ys', s, m') \<Rightarrow> (ys @ ys', s, m'))"

text \<open>
  \<open>poll\<close>, run for at most \<open>n\<close> cycles from cycle \<open>c\<close>: the snapshots yielded so far, and
  whether the generator is still in its loop (\<open>Polling\<close>), has left it by \<open>break\<close>
  (\<open>Finished\<close>) or has raised (\<open>Aborted\<close>). Only \<open>DecodeError\<close> is caught; \<open>sleep\<close> takes time
  and nothing else.
\<close>

fun poll :: "world \<Rightarrow> nat \<Rightarrow> nat \<Rightarrow> ids_map \<Rightarrow> emission list \<times> status \<times> ids_map" where
  "poll w 0 c m = ([], Polling, m)"
| "poll w (Suc n) c m =
     (case get_all_data (first_pass w c) m of
        (ys1, Some e, m1) \<Rightarrow>
          (if e = DecodeError then carry_on ys1 (poll w n (Suc c) m1)
           else (ys1, Aborted e, m1))
      | (ys1, None, m1) \<Rightarrow>
          (case root_ready w c of
             Undecodable \<Rightarrow> carry_on ys1 (poll w n (Suc c) m1)
           | Fetched False \<Rightarrow> carry_on ys1 (poll w n (Suc c) m1)
           | Fetched True \<Rightarrow>
               (case get_all_data (final_pass w c) m1 of
                  (ys2, None, m2) \<Rightarrow> (ys1 @ ys2, Finished, m2)
                | (ys2, Some e, m2) \<Rightarrow>
                    (if e = DecodeError then carry_on (ys1 @ ys2) (poll w n (Suc c) m2)
                     else (ys1 @ ys2, Aborted e, m2)))))"

text \<open>
  \<open>iter_results\<close> with \<open>print_remote_info=False\<close> (no progress panel): \<open>yield from
  data['results']\<close> for every snapshot of \<open>poll\<close>. A list yields its records, a string its
  characters; other values cannot be iterated.
\<close>

datatype item = Rec output_type | Chr char

definition results_items :: "dict \<Rightarrow> error + item list" where
  "results_items data =
     (case map_of data ''results'' of
        None \<Rightarrow> Inl (KeyError ''results'')
      | Some (PyList rs) \<Rightarrow> Inr (map Rec rs)
      | Some (PyStr s) \<Rightarrow> Inr (map Chr s)
      | Some _ \<Rightarrow> Inl TypeError)"

fun drain :: "emission list \<Rightarrow> item list \<times> error option" where
  "drain [] = ([], None)"
| "drain ((task_id, data) # ys) =
     (case results_items data of
        Inl e \<Rightarrow> ([], Some e)
      | Inr xs \<Rightarrow> (case drain ys of (zs, err) \<Rightarrow> (xs @ zs, err)))"

definition iter_results :: "world \<Rightarrow> nat \<Rightarrow> ids_map \<Rightarrow> item list \<times> status" where
  "iter_results w n m =
     (case poll w n 0 m of
        (ys, s, m') \<Rightarrow>
          (case drain ys of
             (items, Some e) \<Rightarrow> (items, Aborted e)
           | (items, None) \<Rightarrow> (items, s)))"

subsection \<open>The keys \<open>get_task_data\<close> stores\<close>

text \<open>
  The keys of a metadata payload (\<open>data.update(info)\<close> stores each of them), and the keys
  the function stores by name.
\<close>

definition payload_keys :: "async_result \<Rightarrow> string set" where
  "payload_keys res = (case res_info res of Fetched (InfoDict meta) \<Rightarrow> fst ` set meta | _ \<Rightarrow> {})"

definition written_keys :: "string set" where
  "written_keys = {''state'', ''ready'', ''results'', ''count'', ''progress''}"

text \<open>
  A descriptor with an \<open>id\<close> and a \<open>full_name\<close> that can be a dictionary key: what the
  \<open>debug\<close> call of the loop reads besides the state and the count.
\<close>

definition pollable :: "dict \<Rightarrow> bool" where
  "pollable d =
     (map_of d ''id'' \<noteq> None \<and>
      (case map_of d ''full_name'' of
         None \<Rightarrow> False
       | Some (PyList xs) \<Rightarrow> False
       | Some v \<Rightarrow> True))"

subsection \<open>A small session\<close>

text \<open>
  Two tasks \<open>a\<close> and \<open>b\<close> with the descriptors a caller supplies, and the answers of the
  backend used below to run the functions on concrete inputs.
\<close>

definition rec_ip :: output_type where
  "rec_ip = \<lparr>otype = ''ip'', osource = ''nmap'', percent = 0, ouuid = ''r1''\<rparr>"

definition rec_error :: output_type where
  "rec_error = \<lparr>otype = ''error'', osource = ''httpx'', percent = 0, ouuid = ''r2''\<rparr>"

definition task_descr :: "string \<Rightarrow> dict" where
  "task_descr i =
     [(''id'', PyStr i), (''name'', PyStr ''nmap''), (''full_name'', PyStr ''nmap''),
      (''descr'', PyStr ''scan''), (''state'', PyStr ''PENDING''), (''count'', PyInt 0)]"

definition one_task :: ids_map where
  "one_task = [(''a'', task_descr ''a'')]"

definition two_tasks :: ids_map where
  "two_tasks = [(''a'', task_descr ''a''), (''b'', task_descr ''b'')]"

definition answer :: "string \<Rightarrow> info \<Rightarrow> async_result" where
  "answer st payload = \<lparr>res_true = True, res_state = Fetched st, res_info = Fetched payload\<rparr>"

definition garbled :: async_result where
  "garbled = \<lparr>res_true = True, res_state = Undecodable, res_info = Undecodable\<rparr>"

definition all_finished :: backend where
  "all_finished = (\<lambda>t. answer ''SUCCESS'' (InfoList [rec_ip]))"

definition nearly_done :: backend where
  "nearly_done = (\<lambda>t. answer ''RUNNING'' (InfoDict [(''progress'', PyInt 100)]))"

definition one_failed :: backend where
  "one_failed = (\<lambda>t. answer ''SUCCESS'' (InfoList [rec_ip, rec_error]))"

definition b_retrying :: backend where
  "b_retrying =
     (\<lambda>t. if t = ''b'' then answer ''RETRY'' (InfoException (RemoteError ''boom''))
          else answer ''SUCCESS'' (InfoList [rec_ip]))"

definition a_running :: backend where
  "a_running =
     (\<lambda>t. if t = ''a'' then answer ''RUNNING'' (InfoDict [])
          else answer ''SUCCESS'' (InfoList [rec_ip]))"

definition b_garbled :: backend where
  "b_garbled = (\<lambda>t. if t = ''b'' then garbled else answer ''SUCCESS'' (InfoList [rec_ip]))"

definition all_empty :: backend where
  "all_empty = (\<lambda>t. answer ''SUCCESS'' (InfoList []))"

definition nameless_task :: ids_map where
  "nameless_task = [(''a'', [(''id'', PyStr ''a'')])]"

definition steady :: "backend \<Rightarrow> world" where
  "steady be = \<lparr>first_pass = (\<lambda>c. be), root_ready = (\<lambda>c. Fetched True), final_pass = (\<lambda>c. be)\<rparr>"

text \<open>The root is ready from the start; the pass after its first answer meets a decode error.\<close>

definition flaky_final :: world where
  "flaky_final =
     \<lparr>first_pass = (\<lambda>c. all_finished), root_ready = (\<lambda>c. Fetched True),
      final_pass = (\<lambda>c. if c = 0 then b_garbled else all_finished)\<rparr>"

text \<open>The root is ready from the start; a task fails in the pass after its first answer.\<close>

definition late_failure :: world where
  "late_failure =
     \<lparr>first_pass = (\<lambda>c. all_finished), root_ready = (\<lambda>c. Fetched True),
      final_pass = (\<lambda>c. b_retrying)\<rparr>"

text \<open>All tasks are finished; the root is not ready in cycle 0 and ready from cycle 1 on.\<close>

definition late_root :: world where
  "late_root =
     \<lparr>first_pass = (\<lambda>c. all_finished),
      root_ready = (\<lambda>c. if c = 0 then Fetched False else Fetched True),
      final_pass = (\<lambda>c. all_finished)\<rparr>"

text \<open>The snapshot of a finished task \<open>i\<close> of the session, and the same with another progress.\<close>

definition done_snapshot :: "string \<Rightarrow> int \<Rightarrow> dict" where
  "done_snapshot i p =
     [(''id'', PyStr i), (''name'', PyStr ''nmap''), (''full_name'', PyStr ''nmap''),
      (''descr'', PyStr ''scan''), (''state'', PyStr ''SUCCESS''), (''count'', PyInt 1),
      (''ready'', PyBool True), (''results'', PyList [rec_ip]), (''progress'', PyInt p)]"

definition both_done :: ids_map where
  "both_done = [(''a'', done_snapshot ''a'' 100), (''b'', done_snapshot ''b'' 100)]"

definition running_snapshot :: "string \<Rightarrow> dict" where
  "running_snapshot i =
     [(''id'', PyStr i), (''name'', PyStr ''nmap''), (''full_name'', PyStr ''nmap''),
      (''descr'', PyStr ''scan''), (''state'', PyStr ''RUNNING''), (''count'', PyInt 0),
      (''ready'', PyBool False), (''results'', PyList [])]"


section \<open>Properties of the tree walker\<close>

lemma fold_set_grow:
  assumes "\<And>x s. x \<in> set xs \<Longrightarrow> set (f x s) = set s \<union> g x"
  shows "set (fold f xs s) = set s \<union> (\<Union>x\<in>set xs. g x)"
  using assms by (induction xs arbitrary: s) auto



lemma fold_extends:
  assumes "\<And>x s. x \<in> set xs \<Longrightarrow> prefix s (f x s)"
  shows "prefix s (fold f xs s)"
  using assms
proof (induction xs arbitrary: s)
  case Nil
  show ?case by simp
next
  case (Cons a xs)
  have "prefix s (f a s)" using Cons.prems by simp
  moreover have "prefix (f a s) (fold f xs (f a s))"
    using Cons.IH Cons.prems by simp
  ultimately show ?case by (auto intro: prefix_order.trans)
qed

lemma set_get_task_ids: "set (get_task_ids r ids) = set ids \<union> visited_ids r"
proof (induction r ids rule: get_task_ids.induct)
  case (1 ids)
  show ?case by simp
next
  case (2 t p rs ids)
  have f: "set (fold get_task_ids rs (get_task_ids p ids)) =
           set (get_task_ids p ids) \<union> (\<Union>x\<in>set rs. visited_ids x)"
    by (rule fold_set_grow) (simp add: "2.IH"(2))
  show ?case using "2.IH"(1) "2.IH"(3) f by (auto simp: Let_def)
next
  case (3 t i ch p ids)
  show ?case
  proof (cases ch)
    case Undecodable
    then show ?thesis by auto
  next
    case (Fetched oc)
    show ?thesis
    proof (cases oc)
      case None
      then show ?thesis using Fetched "3.IH"(1) by (auto simp: Let_def)
    next
      case (Some cs)
      let ?ids1 = "if i \<in> set ids then ids else ids @ [i]"
      have f: "set (fold get_task_ids cs ?ids1) = set ?ids1 \<union> (\<Union>x\<in>set cs. visited_ids x)"
        by (rule fold_set_grow) (rule "3.IH"(2)[OF refl Fetched Some])
      show ?thesis using Fetched Some f "3.IH"(3)[OF refl Fetched Some refl]
        by (auto simp: Let_def)
    qed
  qed
qed



lemma prefix_get_task_ids: "prefix ids (get_task_ids r ids)"
proof (induction r ids rule: get_task_ids.induct)
  case (1 ids)
  show ?case by simp
next
  case (2 t p rs ids)
  have a: "prefix ids (get_task_ids p ids)" using 2 by simp
  have b: "prefix (get_task_ids p ids) (fold get_task_ids rs (get_task_ids p ids))"
    by (rule fold_extends) (simp add: "2.IH"(2))
  have c: "truthy p \<Longrightarrow> prefix (fold get_task_ids rs (get_task_ids p ids))
             (get_task_ids p (fold get_task_ids rs (get_task_ids p ids)))"
    using "2.IH"(3) by simp
  show ?case using a b c by (auto simp: Let_def intro: prefix_order.trans)
next
  case (3 t i ch p ids)
  let ?ids1 = "if i \<in> set ids then ids else ids @ [i]"
  have a: "prefix ids ?ids1" by simp
  show ?case
  proof (cases ch)
    case Undecodable
    then show ?thesis by auto
  next
    case (Fetched oc)
    show ?thesis
    proof (cases oc)
      case None
      have "truthy p \<Longrightarrow> prefix ?ids1 (get_task_ids p ?ids1)"
        using "3.IH"(1)[OF refl Fetched None] by simp
      then show ?thesis using Fetched None a
        by (auto simp: Let_def intro: prefix_order.trans)
    next
      case (Some cs)
      have b: "prefix ?ids1 (fold get_task_ids cs ?ids1)"
        by (rule fold_extends) (rule "3.IH"(2)[OF refl Fetched Some])
      have c: "truthy p \<Longrightarrow> prefix (fold get_task_ids cs ?ids1)
                 (get_task_ids p (fold get_task_ids cs ?ids1))"
        using "3.IH"(3)[OF refl Fetched Some refl] by simp
      have "prefix ids (fold get_task_ids cs ?ids1)"
        using a b by (rule prefix_order.trans)
      moreover have "truthy p \<Longrightarrow> prefix ids (get_task_ids p (fold get_task_ids cs ?ids1))"
        using a b c by (meson prefix_order.trans)
      ultimately show ?thesis using Fetched Some by (simp add: Let_def)
    qed
  qed
qed








text \<open>
  C10. A call without \<open>ids\<close> starts from what the earlier calls without \<open>ids\<close> accumulated and
  leaves its own additions there: after a walk of \<open>r1\<close>, a walk of \<open>r2\<close> returns a list that
  begins with the identifiers of \<open>r1\<close>, so it differs from the list the same walk of \<open>r2\<close>
  builds in a fresh module as soon as \<open>r1\<close> has an identifier that \<open>r2\<close> has not.
\<close>

theorem get_task_ids_default_shared:
  "fst (call_get_task_ids r2 None (snd (call_get_task_ids r1 None st))) =
     get_task_ids r2 (get_task_ids r1 (ids_default st)) \<and>
   prefix (fst (call_get_task_ids r1 None st))
     (fst (call_get_task_ids r2 None (snd (call_get_task_ids r1 None st)))) \<and>
   (i \<in> visited_ids r1 \<and> i \<notin> visited_ids r2 \<longrightarrow>
      fst (call_get_task_ids r2 None (snd (call_get_task_ids r1 None fresh_module))) \<noteq>
      fst (call_get_task_ids r2 None fresh_module))"
proof -
  have a: "fst (call_get_task_ids r2 None (snd (call_get_task_ids r1 None st))) =
     get_task_ids r2 (get_task_ids r1 (ids_default st))" for st
    by (simp add: call_get_task_ids_def Let_def)
  have b: "fst (call_get_task_ids r1 None st) = get_task_ids r1 (ids_default st)" for st
    by (simp add: call_get_task_ids_def Let_def)
  have c: "i \<in> visited_ids r1 \<Longrightarrow> i \<notin> visited_ids r2 \<Longrightarrow>
      get_task_ids r2 (get_task_ids r1 []) \<noteq> get_task_ids r2 []"
  proof
    assume i1: "i \<in> visited_ids r1" and i2: "i \<notin> visited_ids r2"
      and eq: "get_task_ids r2 (get_task_ids r1 []) = get_task_ids r2 []"
    have "i \<in> set (get_task_ids r2 (get_task_ids r1 []))"
      using i1 by (simp add: set_get_task_ids)
    moreover have "i \<notin> set (get_task_ids r2 [])"
      using i2 by (simp add: set_get_task_ids)
    ultimately show False using eq by simp
  qed
  have d: "fst (call_get_task_ids r2 None fresh_module) = get_task_ids r2 []"
    by (simp add: call_get_task_ids_def fresh_module_def Let_def)
  have e: "fst (call_get_task_ids r2 None (snd (call_get_task_ids r1 None fresh_module))) =
     get_task_ids r2 (get_task_ids r1 [])"
    by (simp add: a fresh_module_def)
  show ?thesis
    unfolding d e unfolding a b using c prefix_get_task_ids by simp
qed

theorem get_task_ids_default_shared_witness:
  "''c'' \<in> visited_ids leaf_c \<and> ''c'' \<notin> visited_ids NoResult \<and>
   fst (call_get_task_ids NoResult None fresh_module) = [] \<and>
   fst (call_get_task_ids NoResult None (snd (call_get_task_ids leaf_c None fresh_module))) = [''c'']"
  using get_task_ids_default_shared[of NoResult leaf_c fresh_module "''c''"]
  by (simp add: call_get_task_ids_def fresh_module_def leaf_c_def Let_def)

section \<open>Properties of \<open>get_task_data\<close>\<close>

lemma map_of_dict_update_other:
  "k \<notin> fst ` set other \<Longrightarrow> map_of (dict_update other d) k = map_of d k"
  unfolding dict_update_def
  by (induction other arbitrary: d) (auto simp: update_conv')

lemma dom_dict_update: "dom (map_of d) \<subseteq> dom (map_of (dict_update other d))"
  unfolding dict_update_def
proof (induction other arbitrary: d)
  case Nil
  show ?case by simp
next
  case (Cons a other)
  obtain k v where a: "a = (k, v)" by (cases a)
  have "dom (map_of d) \<subseteq> dom (map_of (AList.update k v d))"
    by (auto simp: update_conv')
  also have "\<dots> \<subseteq> dom (map_of (fold (\<lambda>(k, v). AList.update k v) other (AList.update k v d)))"
    by (rule Cons.IH)
  finally show ?case by (simp add: a)
qed

lemma map_of_put:
  "map_of (put t d m) t' = (if t' = t \<and> map_of m t \<noteq> None then Some d else map_of m t')"
  by (auto simp: put_def update_conv')

lemma keys_put: "map fst (put t d m) = map fst m"
  by (auto simp: put_def update_keys map_of_eq_None_iff)

lemma descriptor_put:
  "descriptor (put t d m) t' = (if t' = t \<and> map_of m t \<noteq> None then d else descriptor m t')"
  by (auto simp: descriptor_def map_of_put)

lemma put_same: "put t (descriptor m t) m = m"
  by (auto simp: put_def descriptor_def update_triv)

lemma known_iff_key: "(map_of m t \<noteq> None) = (t \<in> set (map fst m))"
  by (simp add: map_of_eq_None_iff)

lemma set_ready_returns:
  assumes "set_ready data = (None, d)"
  shows "\<exists>st. map_of data ''state'' = Some st \<and> map_of d ''state'' = Some st \<and>
           map_of d ''ready'' = Some (PyBool (st \<in> set terminal_states)) \<and>
           (st \<in> set terminal_states \<longrightarrow> map_of d ''progress'' = Some (PyInt 100))"
  using assms unfolding set_ready_def Let_def
  by (auto simp: update_conv' split: option.splits if_splits pyval.splits)

lemma get_task_data_returns:
  assumes "get_task_data be t m = (Returns (Some d), m')"
  shows "\<exists>d2. set_ready d2 = (None, d) \<and> m' = put t d m"
  using assms unfolding get_task_data_def Let_def
  by (auto split: if_splits fetched.splits prod.splits option.splits)

lemma classify_frame:
  assumes "classify payload data = (e, d)"
  shows "dom (map_of data) \<subseteq> dom (map_of d)"
    and "k \<notin> {''results'', ''count'', ''state''} \<Longrightarrow>
         k \<notin> (case payload of InfoDict meta \<Rightarrow> fst ` set meta | _ \<Rightarrow> {}) \<Longrightarrow>
         map_of d k = map_of data k"
proof -
  show "dom (map_of data) \<subseteq> dom (map_of d)"
  proof (cases payload)
    case (InfoDict meta)
    then show ?thesis using assms dom_dict_update[of data meta] by (simp add: classify_def)
  next
    case (InfoList recs)
    then show ?thesis using assms
      by (auto simp: classify_def Let_def update_conv' split: option.splits if_splits)
  qed (use assms in \<open>auto simp: classify_def\<close>)
  show "map_of d k = map_of data k"
    if "k \<notin> {''results'', ''count'', ''state''}"
      and "k \<notin> (case payload of InfoDict meta \<Rightarrow> fst ` set meta | _ \<Rightarrow> {})"
  proof (cases payload)
    case (InfoDict meta)
    then show ?thesis using assms that map_of_dict_update_other[of k meta data]
      by (simp add: classify_def)
  next
    case (InfoList recs)
    then show ?thesis using assms that
      by (auto simp: classify_def Let_def update_conv' split: option.splits if_splits)
  qed (use assms in \<open>auto simp: classify_def\<close>)
qed

lemma set_ready_frame:
  assumes "set_ready data = (e, d)"
  shows "dom (map_of data) \<subseteq> dom (map_of d)"
    and "k \<notin> {''ready'', ''progress''} \<Longrightarrow> map_of d k = map_of data k"
  using assms unfolding set_ready_def Let_def
  by (auto simp: update_conv' split: option.splits if_splits pyval.splits)

lemma start_frame:
  "dom (map_of data) \<subseteq> dom (map_of (dict_update [(''state'', PyStr st), (''ready'', PyBool False), (''results'', PyList [])] data))"
  "k \<notin> {''state'', ''ready'', ''results''} \<Longrightarrow>
     map_of (dict_update [(''state'', PyStr st), (''ready'', PyBool False), (''results'', PyList [])] data) k = map_of data k"
  by (auto simp: dict_update_def update_conv')

lemma get_task_data_store:
  "\<exists>d. snd (get_task_data be t m) = put t d m \<and>
       dom (map_of (descriptor m t)) \<subseteq> dom (map_of d) \<and>
       (\<forall>k. k \<notin> written_keys \<union> payload_keys (be t) \<longrightarrow> map_of d k = map_of (descriptor m t) k)"
proof -
  let ?d0 = "descriptor m t"
  let ?P = "\<lambda>d. dom (map_of ?d0) \<subseteq> dom (map_of d) \<and>
       (\<forall>k. k \<notin> written_keys \<union> payload_keys (be t) \<longrightarrow> map_of d k = map_of ?d0 k)"
  have same: "snd (get_task_data be t m) = m \<Longrightarrow> ?thesis"
    using put_same[of t m] by (intro exI[of _ ?d0]) simp
  show ?thesis
  proof (cases "res_true (be t)")
    case False
    then show ?thesis by (intro same) (simp add: get_task_data_def)
  next
    case True
    show ?thesis
    proof (cases "res_state (be t)")
      case Undecodable
      then show ?thesis using True by (intro same) (simp add: get_task_data_def)
    next
      case (Fetched st)
      let ?d1 = "dict_update [(''state'', PyStr st), (''ready'', PyBool False), (''results'', PyList [])] ?d0"
      have p1: "?P ?d1" using start_frame[where data = "?d0" and st = st] by (auto simp: written_keys_def)
      show ?thesis
      proof (cases "res_info (be t)")
        case Undecodable
        then have "snd (get_task_data be t m) = put t ?d1 m"
          using True Fetched by (simp add: get_task_data_def)
        then show ?thesis using p1 by blast
      next
        case inf: (Fetched payload)
        obtain e d2 where c: "classify payload ?d1 = (e, d2)" by (cases "classify payload ?d1")
        have pk: "(case payload of InfoDict meta \<Rightarrow> fst ` set meta | _ \<Rightarrow> {}) = payload_keys (be t)"
          using inf by (simp add: payload_keys_def)
        have p2: "?P d2"
        proof (intro conjI allI impI)
          show "dom (map_of ?d0) \<subseteq> dom (map_of d2)"
            using p1 classify_frame(1)[OF c] by (meson order_trans)
          fix k assume k: "k \<notin> written_keys \<union> payload_keys (be t)"
          then have "map_of d2 k = map_of ?d1 k"
            using classify_frame(2)[OF c, of k] unfolding pk by (simp add: written_keys_def)
          then show "map_of d2 k = map_of ?d0 k" using p1 k by simp
        qed
        show ?thesis
        proof (cases e)
          case (Some err)
          then have "snd (get_task_data be t m) = put t d2 m"
            using True Fetched inf c by (simp add: get_task_data_def)
          then show ?thesis using p2 by blast
        next
          case None
          obtain e3 d3 where r: "set_ready d2 = (e3, d3)" by (cases "set_ready d2")
          have p3: "?P d3"
          proof (intro conjI allI impI)
            show "dom (map_of ?d0) \<subseteq> dom (map_of d3)"
              using p2 set_ready_frame(1)[OF r] by (meson order_trans)
            fix k assume k: "k \<notin> written_keys \<union> payload_keys (be t)"
            then have "map_of d3 k = map_of d2 k"
              using set_ready_frame(2)[OF r, of k] by (simp add: written_keys_def)
            then show "map_of d3 k = map_of ?d0 k" using p2 k by simp
          qed
          have "snd (get_task_data be t m) = put t d3 m"
            using True Fetched inf c None r by (cases e3) (simp_all add: get_task_data_def)
          then show ?thesis using p3 by blast
        qed
      qed
    qed
  qed
qed

lemma get_task_data_other:
  "t' \<noteq> t \<Longrightarrow> map_of (snd (get_task_data be t m)) t' = map_of m t'"
  using get_task_data_store[of be t m] by (auto simp: map_of_put)

lemma get_task_data_keys: "map fst (snd (get_task_data be t m)) = map fst m"
  using get_task_data_store[of be t m] by (auto simp: keys_put)

lemma exception_payload:
  assumes "res_true (be t)" "res_state (be t) = Fetched st"
    "res_info (be t) = Fetched (InfoException e)"
  shows "get_task_data be t m =
     (Raises e,
      put t (dict_update [(''state'', PyStr st), (''ready'', PyBool False), (''results'', PyList [])]
               (descriptor m t)) m)"
  using assms by (simp add: get_task_data_def classify_def)

lemma list_payload_run:
  assumes "res_true (be t)" and "res_state (be t) = Fetched st"
    and "res_info (be t) = Fetched (InfoList recs)"
    and "recs \<noteq> [] \<longrightarrow> map_of (descriptor m t) ''name'' \<noteq> None"
  shows "\<exists>d. get_task_data be t m = (Returns (Some d), put t d m) \<and>
     map_of d ''results'' = Some (PyList recs) \<and>
     map_of d ''count'' =
       Some (PyInt (int (length
         (filter (\<lambda>c. map_of (descriptor m t) ''name'' = Some (PyStr (osource c))) recs)))) \<and>
     map_of d ''state'' =
       Some (PyStr (if (\<exists>e\<in>set recs. otype e = ''error'') then ''FAILURE'' else ''SUCCESS'')) \<and>
     (\<forall>k. k \<notin> written_keys \<longrightarrow> map_of d k = map_of (descriptor m t) k)"
proof -
  let ?d1 = "dict_update [(''state'', PyStr st), (''ready'', PyBool False), (''results'', PyList [])]
               (descriptor m t)"
  let ?r = "AList.update ''results'' (PyList recs) ?d1"
  let ?n = "int (length
         (filter (\<lambda>c. map_of (descriptor m t) ''name'' = Some (PyStr (osource c))) recs))"
  let ?s = "if (\<exists>e\<in>set recs. otype e = ''error'') then ''FAILURE'' else ''SUCCESS''"
  let ?d2 = "AList.update ''state'' (PyStr ?s) (AList.update ''count'' (PyInt ?n) ?r)"
  have nm0: "map_of ?r ''name'' = map_of (descriptor m t) ''name''"
    by (simp add: dict_update_def update_conv')
  have ex: "(filter (\<lambda>e. otype e = ''error'') recs \<noteq> []) = (\<exists>e\<in>set recs. otype e = ''error'')"
    by (auto simp: filter_empty_conv)
  have ok: "\<not> (recs \<noteq> [] \<and> map_of ?r ''name'' = None)" using assms(4) nm0 by auto
  have c: "classify (InfoList recs) ?d1 = (None, ?d2)"
    unfolding classify_def Let_def info.case nm0 using ok ex unfolding nm0 by simp
  let ?d3 = "AList.update ''progress'' (PyInt 100) (AList.update ''ready'' (PyBool True) ?d2)"
  have r: "set_ready ?d2 = (None, ?d3)"
    by (simp add: set_ready_def Let_def update_conv' terminal_states_def)
  have g: "get_task_data be t m = (Returns (Some ?d3), put t ?d3 m)"
    using assms(1-3) c r by (simp add: get_task_data_def)
  have "map_of ?d3 ''results'' = Some (PyList recs)" by (simp add: update_conv')
  moreover have "map_of ?d3 ''count'' = Some (PyInt ?n)" by (simp add: update_conv')
  moreover have "map_of ?d3 ''state'' = Some (PyStr ?s)" by (simp add: update_conv')
  moreover have "\<forall>k. k \<notin> written_keys \<longrightarrow> map_of ?d3 k = map_of (descriptor m t) k"
    by (simp add: update_conv' dict_update_def written_keys_def)
  ultimately show ?thesis using g by blast
qed

lemma percent_of_two:
  "(200::nat) div Suc (Suc 0) = 100" "(100::nat) div Suc (Suc 0) = 50"
  by (simp_all add: numeral_2_eq_2[symmetric])

text \<open>The definitions unfolded to run the functions on the small session.\<close>

lemmas run_defs =
  get_all_data_def get_task_data_def classify_def set_ready_def dict_update_def put_def
  descriptor_def debug_poll_def terminal_states_def is_ready_def results_items_def
  iter_results_def carry_on_def Let_def
  rec_ip_def rec_error_def task_descr_def one_task_def two_tasks_def answer_def garbled_def
  all_finished_def nearly_done_def one_failed_def b_retrying_def a_running_def b_garbled_def
  steady_def flaky_final_def done_snapshot_def
  running_snapshot_def payload_keys_def written_keys_def
  all_empty_def nameless_task_def late_failure_def late_root_def both_done_def pollable_def
  percent_of_two

text \<open>
  C2, as stated, fails: a running task that reports \<open>progress\<close> 100 in its metadata gets a
  snapshot with \<open>ready\<close> false and \<open>progress\<close> 100.
\<close>

theorem progress_100_not_ready_counterexample:
  "fst (get_task_data nearly_done ''a'' one_task) =
     Returns (Some (descriptor (snd (get_task_data nearly_done ''a'' one_task)) ''a'')) \<and>
   map_of (descriptor (snd (get_task_data nearly_done ''a'' one_task)) ''a'') ''state'' =
     Some (PyStr ''RUNNING'') \<and>
   map_of (descriptor (snd (get_task_data nearly_done ''a'' one_task)) ''a'') ''ready'' =
     Some (PyBool False) \<and>
   map_of (descriptor (snd (get_task_data nearly_done ''a'' one_task)) ''a'') ''progress'' =
     Some (PyInt 100)"
  by (simp add: run_defs)

text \<open>
  C2, amended. In every snapshot \<open>get_task_data\<close> returns, \<open>ready\<close> is true exactly when
  \<open>state\<close> is one of \<open>FAILURE\<close>, \<open>SUCCESS\<close>, \<open>REVOKED\<close>, and a ready snapshot has \<open>progress\<close>
  100.
\<close>

theorem get_task_data_ready_progress:
  "get_task_data be t m = (Returns (Some d), m') \<Longrightarrow>
     (\<exists>st. map_of d ''state'' = Some st \<and>
           map_of d ''ready'' = Some (PyBool (st \<in> set terminal_states))) \<and>
     (map_of d ''ready'' = Some (PyBool True) \<longrightarrow> map_of d ''progress'' = Some (PyInt 100))"
proof -
  assume "get_task_data be t m = (Returns (Some d), m')"
  then obtain d2 where "set_ready d2 = (None, d)" using get_task_data_returns by blast
  from set_ready_returns[OF this] show ?thesis by auto
qed

theorem get_task_data_ready_progress_witness:
  "get_task_data all_finished ''a'' one_task =
     (Returns (Some (done_snapshot ''a'' 100)), [(''a'', done_snapshot ''a'' 100)]) \<and>
   map_of (done_snapshot ''a'' 100) ''state'' = Some (PyStr ''SUCCESS'') \<and>
   map_of (done_snapshot ''a'' 100) ''ready'' = Some (PyBool True) \<and>
   map_of (done_snapshot ''a'' 100) ''progress'' = Some (PyInt 100)"
  using get_task_data_ready_progress[of all_finished "''a''" one_task "done_snapshot ''a'' 100"
      "[(''a'', done_snapshot ''a'' 100)]"]
  by (simp add: run_defs)

text \<open>
  C5. A task whose payload is a list of records (with a descriptor that has a \<open>name\<close> when
  the list is not empty): the snapshot has that list as \<open>results\<close>, the number of records
  whose \<open>_source\<close> is the name as \<open>count\<close>, and state \<open>FAILURE\<close> if some record has \<open>_type\<close>
  \<open>error\<close>, else \<open>SUCCESS\<close>; the empty list gives \<open>SUCCESS\<close> and count 0, with or without a
  name.
\<close>

theorem list_payload_classified:
  assumes "res_true (be t)" and "res_state (be t) = Fetched st"
    and "res_info (be t) = Fetched (InfoList recs)"
    and "recs \<noteq> [] \<longrightarrow> map_of (descriptor m t) ''name'' = Some nm"
  shows "\<exists>d. get_task_data be t m = (Returns (Some d), put t d m) \<and>
     map_of d ''results'' = Some (PyList recs) \<and>
     map_of d ''count'' = Some (PyInt (int (length (filter (\<lambda>c. PyStr (osource c) = nm) recs)))) \<and>
     map_of d ''state'' =
       Some (PyStr (if (\<exists>e\<in>set recs. otype e = ''error'') then ''FAILURE'' else ''SUCCESS'')) \<and>
     (recs = [] \<longrightarrow> map_of d ''state'' = Some (PyStr ''SUCCESS'') \<and> map_of d ''count'' = Some (PyInt 0))"
proof -
  have nn: "recs \<noteq> [] \<longrightarrow> map_of (descriptor m t) ''name'' \<noteq> None" using assms(4) by simp
  obtain d where g: "get_task_data be t m = (Returns (Some d), put t d m)"
    and r: "map_of d ''results'' = Some (PyList recs)"
    and c: "map_of d ''count'' =
       Some (PyInt (int (length
         (filter (\<lambda>c. map_of (descriptor m t) ''name'' = Some (PyStr (osource c))) recs))))"
    and s: "map_of d ''state'' =
       Some (PyStr (if (\<exists>e\<in>set recs. otype e = ''error'') then ''FAILURE'' else ''SUCCESS''))"
    using list_payload_run[where be = be and t = t and m = m and st = st and recs = recs]
      assms(1-3) nn by blast
  have cnt: "filter (\<lambda>c. map_of (descriptor m t) ''name'' = Some (PyStr (osource c))) recs =
             filter (\<lambda>c. PyStr (osource c) = nm) recs"
  proof (cases "recs = []")
    case True
    then show ?thesis by simp
  next
    case False
    then have "map_of (descriptor m t) ''name'' = Some nm" using assms(4) by simp
    then show ?thesis by (intro filter_cong) auto
  qed
  have c': "map_of d ''count'' =
      Some (PyInt (int (length (filter (\<lambda>c. PyStr (osource c) = nm) recs))))"
    using c unfolding cnt .
  have e: "recs = [] \<longrightarrow> map_of d ''state'' = Some (PyStr ''SUCCESS'') \<and>
      map_of d ''count'' = Some (PyInt 0)"
    using s c' by simp
  show ?thesis using g r c' s e by blast
qed

theorem list_payload_classified_witness:
  "res_true (one_failed ''a'') \<and> res_state (one_failed ''a'') = Fetched ''SUCCESS'' \<and>
   res_info (one_failed ''a'') = Fetched (InfoList [rec_ip, rec_error]) \<and>
   [rec_ip, rec_error] \<noteq> [] \<and>
   map_of (descriptor one_task ''a'') ''name'' = Some (PyStr ''nmap'') \<and>
   map_of (descriptor (snd (get_task_data one_failed ''a'' one_task)) ''a'') ''results'' =
     Some (PyList [rec_ip, rec_error]) \<and>
   map_of (descriptor (snd (get_task_data one_failed ''a'' one_task)) ''a'') ''count'' =
     Some (PyInt 1) \<and>
   map_of (descriptor (snd (get_task_data one_failed ''a'' one_task)) ''a'') ''state'' =
     Some (PyStr ''FAILURE'') \<and>
   res_true (all_empty ''a'') \<and> res_state (all_empty ''a'') = Fetched ''SUCCESS'' \<and>
   res_info (all_empty ''a'') = Fetched (InfoList []) \<and>
   map_of (descriptor nameless_task ''a'') ''name'' = None \<and>
   map_of (descriptor (snd (get_task_data all_empty ''a'' nameless_task)) ''a'') ''count'' =
     Some (PyInt 0) \<and>
   map_of (descriptor (snd (get_task_data all_empty ''a'' nameless_task)) ''a'') ''state'' =
     Some (PyStr ''SUCCESS'')"
  using list_payload_classified[of one_failed "''a''" "''SUCCESS''" "[rec_ip, rec_error]"
      one_task "PyStr ''nmap''"]
    list_payload_classified[of all_empty "''a''" "''SUCCESS''" "[]" nameless_task PyNone]
  by (simp add: run_defs)

text \<open>
  C9, as stated, fails: polling a finished task adds \<open>results\<close> to the caller's descriptor
  and overwrites its \<open>count\<close>.
\<close>

theorem descriptor_only_state_counterexample:
  "map_of one_task ''a'' = Some (task_descr ''a'') \<and>
   map_of (task_descr ''a'') ''results'' = None \<and>
   map_of (descriptor (snd (get_task_data all_finished ''a'' one_task)) ''a'') ''results'' =
     Some (PyList [rec_ip]) \<and>
   map_of (task_descr ''a'') ''count'' = Some (PyInt 0) \<and>
   map_of (descriptor (snd (get_task_data all_finished ''a'' one_task)) ''a'') ''count'' =
     Some (PyInt 1)"
  by (simp add: run_defs)

text \<open>
  C9, amended. \<open>get_task_data\<close> removes no key of the caller's descriptor and leaves every
  key unchanged other than \<open>state\<close>, \<open>ready\<close>, \<open>results\<close>, \<open>count\<close>, \<open>progress\<close> and the keys of a
  metadata payload; the descriptors of the other identifiers and the set of identifiers
  are unchanged.
\<close>

theorem descriptor_frame:
  "map_of m t = Some desc \<Longrightarrow>
     (\<exists>desc'. map_of (snd (get_task_data be t m)) t = Some desc' \<and>
        dom (map_of desc) \<subseteq> dom (map_of desc') \<and>
        (\<forall>k. k \<notin> written_keys \<union> payload_keys (be t) \<longrightarrow> map_of desc' k = map_of desc k)) \<and>
     (\<forall>t'. t' \<noteq> t \<longrightarrow> map_of (snd (get_task_data be t m)) t' = map_of m t') \<and>
     map fst (snd (get_task_data be t m)) = map fst m"
proof -
  assume d: "map_of m t = Some desc"
  then have d0: "descriptor m t = desc" by (simp add: descriptor_def)
  obtain d' where s: "snd (get_task_data be t m) = put t d' m"
    and dm: "dom (map_of desc) \<subseteq> dom (map_of d')"
    and fr: "\<forall>k. k \<notin> written_keys \<union> payload_keys (be t) \<longrightarrow> map_of d' k = map_of desc k"
    using get_task_data_store[of be t m] unfolding d0 by blast
  have "map_of (snd (get_task_data be t m)) t = Some d'" using d by (simp add: s map_of_put)
  moreover have "\<forall>t'. t' \<noteq> t \<longrightarrow> map_of (snd (get_task_data be t m)) t' = map_of m t'"
    by (simp add: s map_of_put)
  moreover have "map fst (snd (get_task_data be t m)) = map fst m" by (simp add: s keys_put)
  ultimately show ?thesis using dm fr by blast
qed

theorem descriptor_frame_witness:
  "map_of one_task ''a'' = Some (task_descr ''a'') \<and>
   ''descr'' \<notin> written_keys \<union> payload_keys (nearly_done ''a'') \<and>
   map_of (descriptor (snd (get_task_data nearly_done ''a'' one_task)) ''a'') ''descr'' =
     Some (PyStr ''scan'') \<and>
   map fst (snd (get_task_data nearly_done ''a'' one_task)) = [''a'']"
  using descriptor_frame[of one_task "''a''" "task_descr ''a''" nearly_done]
  by (simp add: run_defs)


section \<open>Properties of \<open>get_all_data\<close>\<close>

lemma collect_keys:
  "collect be ts m = (ys, ds, err, m') \<Longrightarrow> map fst m' = map fst m"
proof (induction ts arbitrary: m ys ds err m')
  case Nil
  then show ?case by simp
next
  case (Cons t ts)
  obtain out m1 where g: "get_task_data be t m = (out, m1)" by (cases "get_task_data be t m")
  have k1: "map fst m1 = map fst m" using get_task_data_keys[of be t m] g by simp
  show ?case
  proof (cases "\<exists>ys0 ds0. collect be ts m1 = (ys0, ds0, err, m')")
    case True
    then show ?thesis using Cons.IH k1 by metis
  next
    case False
    then have "m' = m1" using Cons.prems g
      by (auto split: outcome.splits option.splits if_splits prod.splits)
    then show ?thesis using k1 by simp
  qed
qed

lemma collect_inv:
  assumes "collect be ts m = (ys, ds, err, m')" and "distinct ts" and "set ts \<subseteq> set (map fst m)"
  shows "map fst ys = ds \<and> set ds \<subseteq> set ts \<and> distinct ds \<and>
         (\<forall>(t, d)\<in>set ys. map_of m' t = Some d) \<and>
         (\<forall>t'. t' \<notin> set ts \<longrightarrow> map_of m' t' = map_of m t')"
  using assms
proof (induction ts arbitrary: m ys ds err m')
  case Nil
  then show ?case by simp
next
  case (Cons t ts)
  obtain out m1 where g: "get_task_data be t m = (out, m1)" by (cases "get_task_data be t m")
  have k1: "map fst m1 = map fst m" using get_task_data_keys[of be t m] g by simp
  have o1: "\<And>t'. t' \<noteq> t \<Longrightarrow> map_of m1 t' = map_of m t'"
    using get_task_data_other[of _ t be m] g by simp
  have dts: "distinct ts" and tn: "t \<notin> set ts" and sub: "set ts \<subseteq> set (map fst m1)"
    using Cons.prems(2,3) k1 by auto
  have "t \<in> set (map fst m)" using Cons.prems(3) by simp
  then have tk: "map_of m t \<noteq> None" unfolding known_iff_key .
  have rest: "collect be ts m1 = (ys0, ds0, err0, m0) \<Longrightarrow>
      map fst ys0 = ds0 \<and> set ds0 \<subseteq> set ts \<and> distinct ds0 \<and>
      (\<forall>(t, d)\<in>set ys0. map_of m0 t = Some d) \<and>
      (\<forall>t'. t' \<notin> set ts \<longrightarrow> map_of m0 t' = map_of m1 t')" for ys0 ds0 err0 m0
    using Cons.IH[OF _ dts sub] by blast
  have skip: ?case if c: "collect be ts m1 = (ys, ds, err, m')"
    using rest[OF c] o1 by auto
  show ?case
  proof (cases out)
    case (Raises e)
    then show ?thesis using Cons.prems(1) g o1 by auto
  next
    case (Returns od)
    show ?thesis
    proof (cases od)
      case None
      then show ?thesis using Cons.prems(1) g Returns skip by simp
    next
      case (Some d)
      have m1: "m1 = put t d m" using g Returns Some get_task_data_returns by blast
      have td: "map_of m1 t = Some d" using tk by (simp add: m1 map_of_put)
      show ?thesis
      proof (cases "d = []")
        case True
        then show ?thesis using Cons.prems(1) g Returns Some skip by simp
      next
        case False
        show ?thesis
        proof (cases "debug_poll d")
          case (Some e)
          then show ?thesis using Cons.prems(1) g Returns \<open>od = Some d\<close> False o1 by auto
        next
          case None
          obtain ys0 ds0 err0 m0 where c: "collect be ts m1 = (ys0, ds0, err0, m0)"
            by (cases "collect be ts m1") auto
          have eqs: "ys = (t, d) # ys0" "ds = t # ds0" "err = err0" "m' = m0"
            using Cons.prems(1) g Returns \<open>od = Some d\<close> False None c by auto
          have r: "map fst ys0 = ds0" "set ds0 \<subseteq> set ts" "distinct ds0"
            "\<forall>(t, d)\<in>set ys0. map_of m0 t = Some d"
            "\<forall>t'. t' \<notin> set ts \<longrightarrow> map_of m0 t' = map_of m1 t'"
            using rest[OF c] by auto
          have "map_of m0 t = Some d" using r(5) tn td by simp
          then show ?thesis unfolding eqs using r tn o1 by auto
        qed
      qed
    qed
  qed
qed

lemma collect_append:
  "collect be pre m = (ys, ds, None, m1) \<Longrightarrow>
   collect be (pre @ post) m =
     (case collect be post m1 of (ys', ds', err, m') \<Rightarrow> (ys @ ys', ds @ ds', err, m'))"
proof (induction pre arbitrary: m ys ds)
  case Nil
  then show ?case by (auto split: prod.splits)
next
  case (Cons t pre)
  obtain out m0 where g: "get_task_data be t m = (out, m0)" by (cases "get_task_data be t m")
  obtain ys' ds' err' m' where p: "collect be post m1 = (ys', ds', err', m')"
    by (cases "collect be post m1") auto
  have skip: ?case if c: "collect be pre m0 = (ys, ds, None, m1)"
    and s: "\<And>ts. collect be (t # ts) m = collect be ts m0"
    using Cons.IH[OF c, unfolded p] p by (simp add: s del: collect.simps)
  show ?case
  proof (cases out)
    case (Raises e)
    then show ?thesis using Cons.prems g by simp
  next
    case (Returns od)
    show ?thesis
    proof (cases od)
      case None
      then show ?thesis using Cons.prems g Returns by (intro skip) simp_all
    next
      case (Some d)
      show ?thesis
      proof (cases "d = []")
        case True
        then show ?thesis using Cons.prems g Returns Some by (intro skip) simp_all
      next
        case False
        show ?thesis
        proof (cases "debug_poll d")
          case (Some e)
          then show ?thesis using Cons.prems g Returns \<open>od = Some d\<close> False by simp
        next
          case None
          obtain ys0 ds0 err0 m2 where c: "collect be pre m0 = (ys0, ds0, err0, m2)"
            by (cases "collect be pre m0") auto
          have eqs: "ys = (t, d) # ys0" "ds = t # ds0" "err0 = None" "m2 = m1"
            using Cons.prems g Returns \<open>od = Some d\<close> False None c by auto
          have "collect be (pre @ post) m0 = (ys0 @ ys', ds0 @ ds', err', m')"
            using Cons.IH[of m0 ys0 ds0] c eqs p by simp
          then show ?thesis using g Returns \<open>od = Some d\<close> False None p eqs by simp
        qed
      qed
    qed
  qed
qed

lemma collect_stops:
  assumes "collect be pre m = (ys, ds, None, m1)" and "get_task_data be t m1 = (Raises e, m2)"
  shows "collect be (pre @ t # post) m = (ys, ds, Some e, m2)"
  using collect_append[OF assms(1), of "t # post"] assms(2) by simp

lemma ready_count:
  assumes "\<forall>(t, d)\<in>set per. map_of m1 t = Some d"
  shows "length (filter (\<lambda>i. is_ready (descriptor m1 i)) (map fst per)) =
         length (filter (\<lambda>(t, d). is_ready d) per)"
proof -
  have "filter (\<lambda>i. is_ready (descriptor m1 i)) (map fst per) =
        map fst (filter ((\<lambda>i. is_ready (descriptor m1 i)) \<circ> fst) per)"
    by (simp add: filter_map)
  moreover have "filter ((\<lambda>i. is_ready (descriptor m1 i)) \<circ> fst) per =
        filter (\<lambda>(t, d). is_ready d) per"
    using assms by (intro filter_cong) (auto simp: descriptor_def)
  ultimately show ?thesis by simp
qed


lemma get_all_data_raises:
  assumes "collect be (map fst m) m = (ys, ds, Some e, m2)"
  shows "get_all_data be m = (ys, Some e, m2)"
  using assms by (simp add: get_all_data_def)

lemma decode_fault:
  assumes "res_true (be t)" and "res_state (be t) = Undecodable \<or> res_info (be t) = Undecodable"
  shows "fst (get_task_data be t m) = Raises DecodeError"
  using assms
  by (cases "res_state (be t)") (auto simp: get_task_data_def Let_def)

text \<open>
  C6, as stated, fails: the aggregate snapshot is not a copy. With \<open>a\<close> running and \<open>b\<close>
  finished, the snapshot of \<open>b\<close> is yielded with progress 100; the aggregate step then stores
  50 into the same object, which is what the store holds for \<open>b\<close> afterwards.
\<close>

theorem aggregate_clone_counterexample:
  "get_all_data a_running two_tasks =
     ([(''a'', running_snapshot ''a''), (''b'', done_snapshot ''b'' 100),
       (''b'', done_snapshot ''b'' 50)],
      None,
      [(''a'', running_snapshot ''a''), (''b'', done_snapshot ''b'' 50)]) \<and>
   done_snapshot ''b'' 100 \<noteq> done_snapshot ''b'' 50"
  by (simp add: run_defs numeral_2_eq_2[symmetric])

text \<open>
  C6, amended. When a data pass ends without an exception and has yielded a snapshot, it
  yields after the per-task snapshots one aggregate snapshot: the last per-task snapshot
  object itself, whose \<open>progress\<close> is overwritten in place with the integer quotient of
  100 times the number of ready snapshots by the number of snapshots. The per-task
  snapshots yielded before the last one are left as they were yielded.
\<close>

theorem aggregate_snapshot:
  assumes "distinct (map fst m)" and "get_all_data be m = (ys, None, m')" and "ys \<noteq> []"
  shows "\<exists>per t d pct.
     ys = per @ [(t, AList.update ''progress'' (PyInt pct) d)] \<and>
     per \<noteq> [] \<and> last per = (t, d) \<and>
     pct = int ((length (filter (\<lambda>(t, d). is_ready d) per) * 100) div length per) \<and>
     map_of m' t = Some (AList.update ''progress'' (PyInt pct) d) \<and>
     (\<forall>(t', d')\<in>set (butlast per). map_of m' t' = Some d')"
proof -
  obtain per ds err m1 where c: "collect be (map fst m) m = (per, ds, err, m1)"
    by (cases "collect be (map fst m) m") auto
  have err: "err = None" using assms(2) c by (cases err) (auto simp: get_all_data_def)
  have inv: "map fst per = ds" "distinct ds" "\<forall>(t, d)\<in>set per. map_of m1 t = Some d"
    using collect_inv[OF c assms(1)] by auto
  have ne: "ds \<noteq> []"
  proof
    assume "ds = []"
    then have "ys = []" using assms(2) c err inv(1) by (simp add: get_all_data_def)
    then show False using assms(3) by simp
  qed
  then have pne: "per \<noteq> []" using inv(1) by auto
  obtain t d where l: "last per = (t, d)" by (cases "last per")
  have lt: "last ds = t" using inv(1) pne l by (auto simp: last_map)
  have m1t: "map_of m1 t = Some d" using inv(3) l pne last_in_set[OF pne] by auto
  then have dt: "descriptor m1 t = d" by (simp add: descriptor_def)
  define pct where "pct = int ((length (filter (\<lambda>(t, d). is_ready d) per) * 100) div length per)"
  have len: "length ds = length per" using inv(1) by auto
  have cnt: "length (filter (\<lambda>i. is_ready (descriptor m1 i)) ds) =
             length (filter (\<lambda>(t, d). is_ready d) per)"
    using ready_count[OF inv(3)] inv(1) by simp
  have pos: "0 < length per" using pne by simp
  let ?agg = "AList.update ''progress'' (PyInt pct) d"
  have res: "get_all_data be m = (per @ [(t, ?agg)], None, put t ?agg m1)"
    using c err ne lt dt cnt len pos by (simp add: get_all_data_def Let_def pct_def)
  then have ys: "ys = per @ [(t, ?agg)]" and m': "m' = put t ?agg m1"
    using assms(2) by auto
  have mt: "map_of m' t = Some ?agg" using m1t by (simp add: m' map_of_put)
  have bl: "\<forall>(t', d')\<in>set (butlast per). map_of m' t' = Some d'"
  proof (clarify)
    fix t' d' assume i: "(t', d') \<in> set (butlast per)"
    have "butlast per @ [(t, d)] = per" using pne l append_butlast_last_id[of per] by simp
    then have "map fst (butlast per @ [(t, d)]) = ds" using inv(1) by simp
    then have "distinct (map fst (butlast per) @ [t])" using inv(2) by simp
    moreover have "t' \<in> set (map fst (butlast per))" using i by force
    ultimately have "t' \<noteq> t" by auto
    moreover have "(t', d') \<in> set per" using i by (rule in_set_butlastD)
    then have "map_of m1 t' = Some d'" using inv(3) by auto
    ultimately show "map_of m' t' = Some d'" by (simp add: m' map_of_put)
  qed
  show ?thesis
    by (intro exI[of _ per] exI[of _ t] exI[of _ d] exI[of _ pct] conjI)
       (fact ys pne l pct_def mt bl)+
qed

theorem aggregate_snapshot_witness:
  "distinct (map fst two_tasks) \<and>
   get_all_data a_running two_tasks =
     ([(''a'', running_snapshot ''a''), (''b'', done_snapshot ''b'' 100),
       (''b'', done_snapshot ''b'' 50)],
      None,
      [(''a'', running_snapshot ''a''), (''b'', done_snapshot ''b'' 50)]) \<and>
   (\<exists>per t d pct.
      [(''a'', running_snapshot ''a''), (''b'', done_snapshot ''b'' 100),
       (''b'', done_snapshot ''b'' 50)] = per @ [(t, AList.update ''progress'' (PyInt pct) d)] \<and>
      per \<noteq> [] \<and> last per = (t, d) \<and>
      pct = int ((length (filter (\<lambda>(t, d). is_ready d) per) * 100) div length per) \<and>
      map_of [(''a'', running_snapshot ''a''), (''b'', done_snapshot ''b'' 50)] t =
        Some (AList.update ''progress'' (PyInt pct) d) \<and>
      (\<forall>(t', d')\<in>set (butlast per).
         map_of [(''a'', running_snapshot ''a''), (''b'', done_snapshot ''b'' 50)] t' = Some d'))"
proof -
  have d: "distinct (map fst two_tasks)" by (simp add: two_tasks_def)
  have g: "get_all_data a_running two_tasks =
     ([(''a'', running_snapshot ''a''), (''b'', done_snapshot ''b'' 100),
       (''b'', done_snapshot ''b'' 50)],
      None,
      [(''a'', running_snapshot ''a''), (''b'', done_snapshot ''b'' 50)])"
    by (simp add: run_defs numeral_2_eq_2[symmetric])
  show ?thesis using d g aggregate_snapshot[OF d g] by simp
qed


section \<open>Properties of \<open>poll\<close> and \<open>iter_results\<close>\<close>

lemma poll_one:
  "poll w (Suc 0) c m =
     (case get_all_data (first_pass w c) m of
        (ys1, Some e, m1) \<Rightarrow> (ys1, if e = DecodeError then Polling else Aborted e, m1)
      | (ys1, None, m1) \<Rightarrow>
          (case root_ready w c of
             Fetched True \<Rightarrow>
               (case get_all_data (final_pass w c) m1 of
                  (ys2, None, m2) \<Rightarrow> (ys1 @ ys2, Finished, m2)
                | (ys2, Some e, m2) \<Rightarrow>
                    (ys1 @ ys2, if e = DecodeError then Polling else Aborted e, m2))
           | _ \<Rightarrow> (ys1, Polling, m1)))"
  by (simp add: carry_on_def split: prod.splits option.splits fetched.splits bool.splits)

lemma poll_Suc:
  "poll w (Suc n) c m =
     (case poll w (Suc 0) c m of
        (ys, Polling, m1) \<Rightarrow> carry_on ys (poll w n (Suc c) m1)
      | (ys, s, m1) \<Rightarrow> (ys, s, m1))"
  unfolding poll_one
  by (simp add: carry_on_def split: prod.splits option.splits fetched.splits bool.splits)

lemma carry_on_eq:
  "carry_on ys r = (zs, s, m') \<longleftrightarrow> (\<exists>ys'. r = (ys', s, m') \<and> zs = ys @ ys')"
  by (cases r) (auto simp: carry_on_def)

lemma poll_add:
  "poll w k c m = (ys0, Polling, mk) \<Longrightarrow>
   poll w (k + j) c m = carry_on ys0 (poll w j (c + k) mk)"
proof (induction k arbitrary: c m ys0)
  case 0
  then show ?case by (simp add: carry_on_def)
next
  case (Suc k)
  obtain ys1 s1 m1 where o: "poll w (Suc 0) c m = (ys1, s1, m1)"
    by (cases "poll w (Suc 0) c m") auto
  have s1: "s1 = Polling"
    using Suc.prems o by (cases s1) (auto simp: poll_Suc[of w k] carry_on_eq simp del: poll.simps)
  then have "carry_on ys1 (poll w k (Suc c) m1) = (ys0, Polling, mk)"
    using Suc.prems o by (simp add: poll_Suc[of w k] del: poll.simps)
  then obtain ysr where r: "poll w k (Suc c) m1 = (ysr, Polling, mk)" and y: "ys0 = ys1 @ ysr"
    unfolding carry_on_eq by blast
  have "poll w (Suc k + j) c m = carry_on ys1 (poll w (k + j) (Suc c) m1)"
    using o s1 by (simp add: poll_Suc[of w "k + j"] del: poll.simps)
  also have "\<dots> = carry_on ys1 (carry_on ysr (poll w j (Suc c + k) mk))"
    using Suc.IH[OF r] by simp
  finally show ?case using y by (cases "poll w j (Suc c + k) mk") (simp add: carry_on_def)
qed

lemma one_cycle_Finished:
  "poll w (Suc 0) c m = (ys, Finished, m') \<longleftrightarrow>
   (\<exists>ys1 m1 ys2.
      get_all_data (first_pass w c) m = (ys1, None, m1) \<and>
      root_ready w c = Fetched True \<and>
      get_all_data (final_pass w c) m1 = (ys2, None, m') \<and>
      ys = ys1 @ ys2)"
  unfolding poll_one
  by (auto split: prod.splits option.splits fetched.splits bool.splits if_splits)

lemma poll_Finished_only_if:
  "poll w n c m = (ys, Finished, m') \<Longrightarrow>
   \<exists>k<n. \<exists>ys0 mk ys1 m1 ys2.
      poll w k c m = (ys0, Polling, mk) \<and>
      get_all_data (first_pass w (c + k)) mk = (ys1, None, m1) \<and>
      root_ready w (c + k) = Fetched True \<and>
      get_all_data (final_pass w (c + k)) m1 = (ys2, None, m') \<and>
      ys = ys0 @ ys1 @ ys2"
proof (induction n arbitrary: c m ys)
  case 0
  then show ?case by simp
next
  case (Suc n)
  obtain zs s1 m1 where o: "poll w (Suc 0) c m = (zs, s1, m1)"
    by (cases "poll w (Suc 0) c m") auto
  show ?case
  proof (cases s1)
    case Finished
    then have "poll w (Suc 0) c m = (ys, Finished, m')"
      using Suc.prems o by (simp add: poll_Suc[of w n] del: poll.simps)
    then obtain ys1 m1 ys2 where
      "get_all_data (first_pass w c) m = (ys1, None, m1)" "root_ready w c = Fetched True"
      "get_all_data (final_pass w c) m1 = (ys2, None, m')" "ys = ys1 @ ys2"
      unfolding one_cycle_Finished by blast
    then have "0 < Suc n \<and> (\<exists>ys0 mk ys1 m1 ys2.
      poll w 0 c m = (ys0, Polling, mk) \<and>
      get_all_data (first_pass w (c + 0)) mk = (ys1, None, m1) \<and>
      root_ready w (c + 0) = Fetched True \<and>
      get_all_data (final_pass w (c + 0)) m1 = (ys2, None, m') \<and>
      ys = ys0 @ ys1 @ ys2)"
      apply (intro conjI)
       apply simp
      apply (rule exI[of _ "[]"], rule exI[of _ m], rule exI[of _ ys1], rule exI[of _ m1],
          rule exI[of _ ys2])
      apply simp
      done
    then show ?thesis by (rule exI[of _ 0])
  next
    case (Aborted e)
    then show ?thesis using Suc.prems o by (simp add: poll_Suc[of w n] del: poll.simps)
  next
    case Polling
    then have "carry_on zs (poll w n (Suc c) m1) = (ys, Finished, m')"
      using Suc.prems o by (simp add: poll_Suc[of w n] del: poll.simps)
    then obtain ysr where r: "poll w n (Suc c) m1 = (ysr, Finished, m')" and y: "ys = zs @ ysr"
      unfolding carry_on_eq by blast
    from Suc.IH[OF r] obtain k ys0 mk ys1 m1' ys2 where k: "k < n"
      and p: "poll w k (Suc c) m1 = (ys0, Polling, mk)"
      and g: "get_all_data (first_pass w (Suc c + k)) mk = (ys1, None, m1')"
        "root_ready w (Suc c + k) = Fetched True"
        "get_all_data (final_pass w (Suc c + k)) m1' = (ys2, None, m')"
        "ysr = ys0 @ ys1 @ ys2"
      by blast
    have p': "poll w (Suc k) c m = (zs @ ys0, Polling, mk)"
      using o Polling p by (simp add: poll_Suc[of w k] carry_on_def del: poll.simps)
    have g': "get_all_data (first_pass w (c + Suc k)) mk = (ys1, None, m1')"
      "root_ready w (c + Suc k) = Fetched True"
      "get_all_data (final_pass w (c + Suc k)) m1' = (ys2, None, m')"
      using g(1-3) by simp_all
    have y': "ys = (zs @ ys0) @ ys1 @ ys2" using y g(4) by simp
    have "Suc k < Suc n \<and> (\<exists>ys0 mk ys1 m1 ys2.
      poll w (Suc k) c m = (ys0, Polling, mk) \<and>
      get_all_data (first_pass w (c + Suc k)) mk = (ys1, None, m1) \<and>
      root_ready w (c + Suc k) = Fetched True \<and>
      get_all_data (final_pass w (c + Suc k)) m1 = (ys2, None, m') \<and>
      ys = ys0 @ ys1 @ ys2)"
      apply (intro conjI)
       apply (simp add: k)
      apply (rule exI[of _ "zs @ ys0"], rule exI[of _ mk], rule exI[of _ ys1], rule exI[of _ m1'],
          rule exI[of _ ys2])
      apply (intro conjI p' g' y')
      done
    then show ?thesis by (rule exI[of _ "Suc k"])
  qed
qed

lemma poll_Finished_if:
  assumes "k < n" and "poll w k c m = (ys0, Polling, mk)"
    and "get_all_data (first_pass w (c + k)) mk = (ys1, None, m1)"
    and "root_ready w (c + k) = Fetched True"
    and "get_all_data (final_pass w (c + k)) m1 = (ys2, None, m')"
  shows "poll w n c m = (ys0 @ ys1 @ ys2, Finished, m')"
proof -
  have "\<exists>j. n = k + Suc j" using assms(1) by presburger
  then obtain j where n: "n = k + Suc j" ..
  have one: "poll w (Suc 0) (c + k) mk = (ys1 @ ys2, Finished, m')"
    apply (rule iffD2[OF one_cycle_Finished])
    apply (rule exI[of _ ys1], rule exI[of _ m1], rule exI[of _ ys2])
    apply (intro conjI assms(3-5) refl)
    done
  have two: "poll w (Suc j) (c + k) mk = (ys1 @ ys2, Finished, m')"
    unfolding poll_Suc[of w j "c + k" mk] one by simp
  have "poll w (k + Suc j) c m = carry_on ys0 (poll w (Suc j) (c + k) mk)"
    by (rule poll_add[OF assms(2)])
  then show ?thesis unfolding n two by (simp only: carry_on_def prod.case)
qed

lemma drain_status:
  "\<exists>e. (case drain ys of (items, Some e) \<Rightarrow> (items, Aborted e)
         | (items, None) \<Rightarrow> (items, Aborted x)) = (fst (drain ys), Aborted e)"
  by (cases "drain ys") (auto split: option.splits)


lemma one_cycle_Polling:
  "fst (snd (poll w (Suc 0) c m)) = Polling \<longleftrightarrow>
   (\<exists>ys1 m1. get_all_data (first_pass w c) m = (ys1, Some DecodeError, m1)) \<or>
   (\<exists>ys1 m1. get_all_data (first_pass w c) m = (ys1, None, m1) \<and>
      (root_ready w c \<noteq> Fetched True \<or>
       (\<exists>ys2 m2. get_all_data (final_pass w c) m1 = (ys2, Some DecodeError, m2))))"
proof -
  obtain ys1 e1 m1 where g1: "get_all_data (first_pass w c) m = (ys1, e1, m1)"
    by (cases "get_all_data (first_pass w c) m") auto
  obtain ys2 e2 m2 where g2: "get_all_data (final_pass w c) m1 = (ys2, e2, m2)"
    by (cases "get_all_data (final_pass w c) m1") auto
  show ?thesis
    unfolding poll_one g1 using g2
    by (cases e1; cases "root_ready w c"; cases e2) (auto split: bool.splits)
qed

lemma one_cycle_no_decode_abort: "fst (snd (poll w (Suc 0) c m)) \<noteq> Aborted DecodeError"
proof -
  obtain ys1 e1 m1 where g1: "get_all_data (first_pass w c) m = (ys1, e1, m1)"
    by (cases "get_all_data (first_pass w c) m") auto
  obtain ys2 e2 m2 where g2: "get_all_data (final_pass w c) m1 = (ys2, e2, m2)"
    by (cases "get_all_data (final_pass w c) m1") auto
  show ?thesis
    unfolding poll_one g1 using g2
    by (cases e1; cases "root_ready w c"; cases e2) (auto split: bool.splits)
qed

lemma poll_no_decode_abort: "fst (snd (poll w k c m)) \<noteq> Aborted DecodeError"
proof (induction k arbitrary: c m)
  case 0
  show ?case by simp
next
  case (Suc k)
  obtain zs s1 m1 where o: "poll w (Suc 0) c m = (zs, s1, m1)"
    by (cases "poll w (Suc 0) c m") auto
  show ?case
  proof (cases "s1 = Polling")
    case True
    obtain ysr s m' where r: "poll w k (Suc c) m1 = (ysr, s, m')"
      by (cases "poll w k (Suc c) m1") auto
    have "poll w (Suc k) c m = (zs @ ysr, s, m')"
      using o True r by (simp add: poll_Suc[of w k] carry_on_def del: poll.simps)
    then show ?thesis using Suc.IH[of "Suc c" m1] r by simp
  next
    case False
    then have "poll w (Suc k) c m = (zs, s1, m1)"
      using o by (cases s1) (simp_all add: poll_Suc[of w k] del: poll.simps)
    then show ?thesis using one_cycle_no_decode_abort[of w c m] o by simp
  qed
qed








text \<open>
  C3, as stated, fails: the root answers ready in cycle 0, the pass that follows meets a
  decode error after the first identifier, and the loop goes on: it ends one cycle later,
  after two more complete passes.
\<close>

theorem one_extra_pass_counterexample:
  "root_ready flaky_final 0 = Fetched True \<and>
   fst (snd (poll flaky_final (Suc 0) 0 two_tasks)) = Polling \<and>
   map fst (fst (poll flaky_final (Suc 0) 0 two_tasks)) = [''a'', ''b'', ''b'', ''a''] \<and>
   fst (snd (poll flaky_final (Suc (Suc 0)) 0 two_tasks)) = Finished \<and>
   map fst (fst (poll flaky_final (Suc (Suc 0)) 0 two_tasks)) =
     [''a'', ''b'', ''b'', ''a'', ''a'', ''b'', ''b'', ''a'', ''b'', ''b'']"
  by (simp add: run_defs)

text \<open>
  C3, amended. \<open>poll\<close> leaves its loop by \<open>break\<close> exactly when there is a cycle, reached with
  the loop still running, in which the first data pass ends without an exception,
  \<open>result.ready()\<close> returns true and the one additional data pass ends without an exception;
  the sequence is then what the earlier cycles yielded followed by these two passes. A
  cycle leaves the loop running exactly when its first pass raises a decode error, or its
  first pass ends without an exception and \<open>result.ready()\<close> does not return true or the
  additional pass raises a decode error; the loop then goes on with the next cycle.
\<close>

theorem poll_finishes_iff:
  "(poll w n c m = (ys, Finished, m') \<longleftrightarrow>
    (\<exists>k<n. \<exists>ys0 mk ys1 m1 ys2.
       poll w k c m = (ys0, Polling, mk) \<and>
       get_all_data (first_pass w (c + k)) mk = (ys1, None, m1) \<and>
       root_ready w (c + k) = Fetched True \<and>
       get_all_data (final_pass w (c + k)) m1 = (ys2, None, m') \<and>
       ys = ys0 @ ys1 @ ys2)) \<and>
   (fst (snd (poll w (Suc 0) c m)) = Polling \<longleftrightarrow>
    (\<exists>ys1 m1. get_all_data (first_pass w c) m = (ys1, Some DecodeError, m1)) \<or>
    (\<exists>ys1 m1. get_all_data (first_pass w c) m = (ys1, None, m1) \<and>
       (root_ready w c \<noteq> Fetched True \<or>
        (\<exists>ys2 m2. get_all_data (final_pass w c) m1 = (ys2, Some DecodeError, m2))))) \<and>
   (poll w (Suc 0) c m = (zs, Polling, mz) \<longrightarrow>
    poll w (Suc j) c m = carry_on zs (poll w j (Suc c) mz))"
proof (intro conjI)
  show "poll w n c m = (ys, Finished, m') \<longleftrightarrow>
    (\<exists>k<n. \<exists>ys0 mk ys1 m1 ys2.
       poll w k c m = (ys0, Polling, mk) \<and>
       get_all_data (first_pass w (c + k)) mk = (ys1, None, m1) \<and>
       root_ready w (c + k) = Fetched True \<and>
       get_all_data (final_pass w (c + k)) m1 = (ys2, None, m') \<and>
       ys = ys0 @ ys1 @ ys2)"
  proof
    assume "poll w n c m = (ys, Finished, m')"
    then show "\<exists>k<n. \<exists>ys0 mk ys1 m1 ys2.
       poll w k c m = (ys0, Polling, mk) \<and>
       get_all_data (first_pass w (c + k)) mk = (ys1, None, m1) \<and>
       root_ready w (c + k) = Fetched True \<and>
       get_all_data (final_pass w (c + k)) m1 = (ys2, None, m') \<and>
       ys = ys0 @ ys1 @ ys2"
      by (rule poll_Finished_only_if)
  next
    assume "\<exists>k<n. \<exists>ys0 mk ys1 m1 ys2.
       poll w k c m = (ys0, Polling, mk) \<and>
       get_all_data (first_pass w (c + k)) mk = (ys1, None, m1) \<and>
       root_ready w (c + k) = Fetched True \<and>
       get_all_data (final_pass w (c + k)) m1 = (ys2, None, m') \<and>
       ys = ys0 @ ys1 @ ys2"
    then obtain k ys0 mk ys1 m1 ys2 where f: "k < n" "poll w k c m = (ys0, Polling, mk)"
        "get_all_data (first_pass w (c + k)) mk = (ys1, None, m1)"
        "root_ready w (c + k) = Fetched True"
        "get_all_data (final_pass w (c + k)) m1 = (ys2, None, m')"
        and y: "ys = ys0 @ ys1 @ ys2"
      by (elim exE conjE)
    show "poll w n c m = (ys, Finished, m')"
      unfolding y using f by (rule poll_Finished_if)
  qed
  show "fst (snd (poll w (Suc 0) c m)) = Polling \<longleftrightarrow>
    (\<exists>ys1 m1. get_all_data (first_pass w c) m = (ys1, Some DecodeError, m1)) \<or>
    (\<exists>ys1 m1. get_all_data (first_pass w c) m = (ys1, None, m1) \<and>
       (root_ready w c \<noteq> Fetched True \<or>
        (\<exists>ys2 m2. get_all_data (final_pass w c) m1 = (ys2, Some DecodeError, m2))))"
    by (rule one_cycle_Polling)
  show "poll w (Suc 0) c m = (zs, Polling, mz) \<longrightarrow>
    poll w (Suc j) c m = carry_on zs (poll w j (Suc c) mz)"
    by (simp add: poll_Suc[of w j] del: poll.simps)
qed

theorem poll_finishes_iff_witness:
  "poll flaky_final (Suc 0) 0 two_tasks =
     ([(''a'', done_snapshot ''a'' 100), (''b'', done_snapshot ''b'' 100),
       (''b'', done_snapshot ''b'' 100), (''a'', done_snapshot ''a'' 100)],
      Polling, both_done) \<and>
   root_ready flaky_final 0 = Fetched True \<and>
   get_all_data (final_pass flaky_final 0) both_done =
     ([(''a'', done_snapshot ''a'' 100)], Some DecodeError, both_done) \<and>
   fst (snd (poll flaky_final (Suc (Suc 0)) 0 two_tasks)) = Finished \<and>
   poll flaky_final (Suc (Suc 0)) 0 two_tasks =
     carry_on
       [(''a'', done_snapshot ''a'' 100), (''b'', done_snapshot ''b'' 100),
        (''b'', done_snapshot ''b'' 100), (''a'', done_snapshot ''a'' 100)]
       (poll flaky_final (Suc 0) (Suc 0) both_done)"
  using poll_finishes_iff[of flaky_final "Suc (Suc 0)" 0 two_tasks
      "fst (poll flaky_final (Suc (Suc 0)) 0 two_tasks)"
      "snd (snd (poll flaky_final (Suc (Suc 0)) 0 two_tasks))"
      "[(''a'', done_snapshot ''a'' 100), (''b'', done_snapshot ''b'' 100),
        (''b'', done_snapshot ''b'' 100), (''a'', done_snapshot ''a'' 100)]"
      both_done "Suc 0"]
  by (simp add: run_defs)

text \<open>
  C7, as stated, fails: when the data of \<open>b\<close> cannot be decoded, the pass yields the
  snapshot of \<open>a\<close> and ends there, without an aggregate snapshot.
\<close>

theorem decode_error_aggregate_counterexample:
  "get_all_data b_garbled two_tasks =
     ([(''a'', done_snapshot ''a'' 100)], Some DecodeError,
      [(''a'', done_snapshot ''a'' 100), (''b'', task_descr ''b'')])"
  by (simp add: run_defs)

text \<open>
  C7, amended. When, in a data pass, fetching the data of an identifier raises a decode
  error, the pass has yielded the snapshots of identifiers before it and yields nothing
  more, no aggregate snapshot either. The decode error never ends the loop of \<open>poll\<close>:
  whether it is raised in the first data pass, by \<open>result.ready()\<close> or in the additional data
  pass, \<open>poll\<close> catches it and goes on with the next cycle, and no session ends with a
  decode error.
\<close>

theorem decode_error_skips_aggregate:
  assumes "distinct (map fst m)" and "map fst m = pre @ t # post"
    and "collect be pre m = (ys, ds, None, m1)"
    and "res_true (be t)"
    and "res_state (be t) = Undecodable \<or> res_info (be t) = Undecodable"
  shows "(\<exists>m2. get_all_data be m = (ys, Some DecodeError, m2) \<and>
            map fst ys = ds \<and> distinct ds \<and> set ds \<subseteq> set pre) \<and>
         ((\<exists>ys1 n1. get_all_data (first_pass w c) m0 = (ys1, Some DecodeError, n1)) \<or>
          (\<exists>ys1 n1. get_all_data (first_pass w c) m0 = (ys1, None, n1) \<and>
             (root_ready w c = Undecodable \<or>
              (root_ready w c = Fetched True \<and>
               (\<exists>ys2 n2. get_all_data (final_pass w c) n1 = (ys2, Some DecodeError, n2))))) \<longrightarrow>
          (\<exists>zs mz. poll w (Suc 0) c m0 = (zs, Polling, mz) \<and>
             poll w (Suc j) c m0 = carry_on zs (poll w j (Suc c) mz))) \<and>
         (\<forall>k. fst (snd (poll w k c m0)) \<noteq> Aborted DecodeError)"
proof (intro conjI)
  obtain out m2 where g: "get_task_data be t m1 = (out, m2)" by (cases "get_task_data be t m1")
  have "out = Raises DecodeError"
    using decode_fault[where be = be and t = t and m = m1] assms(4,5) g by simp
  then have c: "collect be (map fst m) m = (ys, ds, Some DecodeError, m2)"
    unfolding assms(2) using collect_stops[OF assms(3)] g by simp
  have a: "get_all_data be m = (ys, Some DecodeError, m2)" using c by (rule get_all_data_raises)
  have dp: "distinct pre" and sp: "set pre \<subseteq> set (map fst m)"
    using assms(1) unfolding assms(2) by auto
  have i: "map fst ys = ds" "distinct ds" "set ds \<subseteq> set pre"
    using collect_inv[OF assms(3) dp sp] by auto
  show "\<exists>m2. get_all_data be m = (ys, Some DecodeError, m2) \<and>
            map fst ys = ds \<and> distinct ds \<and> set ds \<subseteq> set pre"
    using a i by blast
next
  show "(\<exists>ys1 n1. get_all_data (first_pass w c) m0 = (ys1, Some DecodeError, n1)) \<or>
          (\<exists>ys1 n1. get_all_data (first_pass w c) m0 = (ys1, None, n1) \<and>
             (root_ready w c = Undecodable \<or>
              (root_ready w c = Fetched True \<and>
               (\<exists>ys2 n2. get_all_data (final_pass w c) n1 = (ys2, Some DecodeError, n2))))) \<longrightarrow>
          (\<exists>zs mz. poll w (Suc 0) c m0 = (zs, Polling, mz) \<and>
             poll w (Suc j) c m0 = carry_on zs (poll w j (Suc c) mz))"
  proof
    assume h: "(\<exists>ys1 n1. get_all_data (first_pass w c) m0 = (ys1, Some DecodeError, n1)) \<or>
          (\<exists>ys1 n1. get_all_data (first_pass w c) m0 = (ys1, None, n1) \<and>
             (root_ready w c = Undecodable \<or>
              (root_ready w c = Fetched True \<and>
               (\<exists>ys2 n2. get_all_data (final_pass w c) n1 = (ys2, Some DecodeError, n2)))))"
    have "(\<exists>ys1 m1. get_all_data (first_pass w c) m0 = (ys1, Some DecodeError, m1)) \<or>
      (\<exists>ys1 m1. get_all_data (first_pass w c) m0 = (ys1, None, m1) \<and>
       (root_ready w c \<noteq> Fetched True \<or>
        (\<exists>ys2 m2. get_all_data (final_pass w c) m1 = (ys2, Some DecodeError, m2))))"
      using h by (elim disjE exE conjE) auto
    then have s: "fst (snd (poll w (Suc 0) c m0)) = Polling"
      unfolding one_cycle_Polling .
    obtain zs s1 mz where o: "poll w (Suc 0) c m0 = (zs, s1, mz)"
      by (cases "poll w (Suc 0) c m0") auto
    then have o': "poll w (Suc 0) c m0 = (zs, Polling, mz)" using s by simp
    then have "poll w (Suc j) c m0 = carry_on zs (poll w j (Suc c) mz)"
      by (simp add: poll_Suc[of w j] del: poll.simps)
    then show "\<exists>zs mz. poll w (Suc 0) c m0 = (zs, Polling, mz) \<and>
             poll w (Suc j) c m0 = carry_on zs (poll w j (Suc c) mz)"
      using o' by blast
  qed
next
  show "\<forall>k. fst (snd (poll w k c m0)) \<noteq> Aborted DecodeError"
    using poll_no_decode_abort by blast
qed

theorem decode_error_skips_aggregate_witness:
  "distinct (map fst both_done) \<and> map fst both_done = [''a''] @ ''b'' # [] \<and>
   collect b_garbled [''a''] both_done =
     ([(''a'', done_snapshot ''a'' 100)], [''a''], None, both_done) \<and>
   res_true (b_garbled ''b'') \<and> res_state (b_garbled ''b'') = Undecodable \<and>
   get_all_data (first_pass flaky_final 0) two_tasks =
     ([(''a'', done_snapshot ''a'' 100), (''b'', done_snapshot ''b'' 100),
       (''b'', done_snapshot ''b'' 100)], None, both_done) \<and>
   root_ready flaky_final 0 = Fetched True \<and>
   get_all_data (final_pass flaky_final 0) both_done =
     ([(''a'', done_snapshot ''a'' 100)], Some DecodeError, both_done) \<and>
   fst (snd (poll flaky_final (Suc 0) 0 two_tasks)) = Polling \<and>
   fst (snd (poll flaky_final (Suc (Suc 0)) 0 two_tasks)) = Finished"
  using decode_error_skips_aggregate[of both_done "[''a'']" "''b''" "[]" b_garbled
      "[(''a'', done_snapshot ''a'' 100)]" "[''a'']" both_done flaky_final 0 two_tasks "Suc 0"]
  by (simp add: run_defs)

text \<open>
  C4, as stated, fails: for an exception payload \<open>get_task_data\<close> raises without setting
  the state to \<open>FAILURE\<close> (a task being retried keeps \<open>RETRY\<close>) and without an \<open>error\<close> field.
\<close>

theorem exception_sets_failure_counterexample:
  "fst (get_task_data b_retrying ''b'' two_tasks) = Raises (RemoteError ''boom'') \<and>
   map_of (descriptor (snd (get_task_data b_retrying ''b'' two_tasks)) ''b'') ''state'' =
     Some (PyStr ''RETRY'') \<and>
   map_of (descriptor (snd (get_task_data b_retrying ''b'' two_tasks)) ''b'') ''error'' = None"
  by (simp add: run_defs)

text \<open>
  C4, amended. For a task whose payload is an exception object, \<open>get_task_data\<close> returns no
  snapshot and raises that object; the descriptor then holds the state the backend
  reported, \<open>ready\<close> false, \<open>results\<close> empty, and no new \<open>error\<close> field. When the identifiers
  before it were polled without an exception, the data pass ends with that exception.
  \<open>poll\<close> catches it only when it is a \<open>kombu\<close> \<open>DecodeError\<close> (the loop then goes on); any
  other exception, raised in the first or in the additional data pass, leaves the generator
  after the snapshots already yielded and ends the session.
\<close>

theorem remote_exception_propagates:
  assumes "map fst m = pre @ t # post"
    and "collect be pre m = (ys, ds, None, m1)"
    and "res_true (be t)" and "res_state (be t) = Fetched st"
    and "res_info (be t) = Fetched (InfoException e)"
  shows "\<exists>m2. get_task_data be t m1 = (Raises e, m2) \<and>
           map_of (descriptor m2 t) ''state'' = Some (PyStr st) \<and>
           map_of (descriptor m2 t) ''ready'' = Some (PyBool False) \<and>
           map_of (descriptor m2 t) ''results'' = Some (PyList []) \<and>
           map_of (descriptor m2 t) ''error'' = map_of (descriptor m1 t) ''error'' \<and>
           get_all_data be m = (ys, Some e, m2) \<and>
           (first_pass w c = be \<longrightarrow>
              poll w (Suc j) c m =
                (if e = DecodeError then carry_on ys (poll w j (Suc c) m2)
                 else (ys, Aborted e, m2))) \<and>
           (final_pass w' c' = be \<and> get_all_data (first_pass w' c') m0 = (ys1, None, m) \<and>
            root_ready w' c' = Fetched True \<longrightarrow>
              poll w' (Suc j) c' m0 =
                (if e = DecodeError then carry_on (ys1 @ ys) (poll w' j (Suc c') m2)
                 else (ys1 @ ys, Aborted e, m2))) \<and>
           (first_pass w 0 = be \<and> e \<noteq> DecodeError \<longrightarrow>
              (\<exists>e'. snd (iter_results w (Suc j) m) = Aborted e'))"
proof -
  let ?d = "dict_update [(''state'', PyStr st), (''ready'', PyBool False), (''results'', PyList [])]
              (descriptor m1 t)"
  let ?m2 = "put t ?d m1"
  have g: "get_task_data be t m1 = (Raises e, ?m2)"
    using exception_payload[where be = be and t = t and m = m1] assms(3-5) by simp
  have "t \<in> set (map fst m1)" using collect_keys[OF assms(2)] assms(1) by simp
  then have "map_of m1 t \<noteq> None" unfolding known_iff_key .
  then have d2: "descriptor ?m2 t = ?d" by (simp add: descriptor_put)
  have s: "map_of ?d ''state'' = Some (PyStr st)" "map_of ?d ''ready'' = Some (PyBool False)"
    "map_of ?d ''results'' = Some (PyList [])"
    "map_of ?d ''error'' = map_of (descriptor m1 t) ''error''"
    by (simp_all add: dict_update_def update_conv')
  have c: "collect be (map fst m) m = (ys, ds, Some e, ?m2)"
    unfolding assms(1) using collect_stops[OF assms(2) g] .
  have a: "get_all_data be m = (ys, Some e, ?m2)"
    using c by (rule get_all_data_raises)
  have p1: "first_pass w c = be \<longrightarrow>
      poll w (Suc j) c m =
        (if e = DecodeError then carry_on ys (poll w j (Suc c) ?m2) else (ys, Aborted e, ?m2))"
    using a by simp
  have p2: "final_pass w' c' = be \<and> get_all_data (first_pass w' c') m0 = (ys1, None, m) \<and>
            root_ready w' c' = Fetched True \<longrightarrow>
      poll w' (Suc j) c' m0 =
        (if e = DecodeError then carry_on (ys1 @ ys) (poll w' j (Suc c') ?m2)
         else (ys1 @ ys, Aborted e, ?m2))"
    using a by simp
  have it: "first_pass w 0 = be \<and> e \<noteq> DecodeError \<longrightarrow>
              (\<exists>e'. snd (iter_results w (Suc j) m) = Aborted e')"
  proof
    assume h: "first_pass w 0 = be \<and> e \<noteq> DecodeError"
    then have "poll w (Suc j) 0 m = (ys, Aborted e, ?m2)" using a by simp
    then show "\<exists>e'. snd (iter_results w (Suc j) m) = Aborted e'"
      unfolding iter_results_def using drain_status[where ys = ys and x = e]
      by (auto simp del: poll.simps)
  qed
  show ?thesis
    apply (rule exI[of _ ?m2])
    unfolding d2
    apply (intro conjI g s a p1 p2 it)
    done
qed

theorem remote_exception_propagates_witness:
  "map fst both_done = [''a''] @ ''b'' # [] \<and>
   collect b_retrying [''a''] both_done =
     ([(''a'', done_snapshot ''a'' 100)], [''a''], None, both_done) \<and>
   res_true (b_retrying ''b'') \<and> res_state (b_retrying ''b'') = Fetched ''RETRY'' \<and>
   res_info (b_retrying ''b'') = Fetched (InfoException (RemoteError ''boom'')) \<and>
   first_pass (steady b_retrying) 0 = b_retrying \<and>
   final_pass late_failure 0 = b_retrying \<and>
   get_all_data (first_pass late_failure 0) two_tasks =
     ([(''a'', done_snapshot ''a'' 100), (''b'', done_snapshot ''b'' 100),
       (''b'', done_snapshot ''b'' 100)], None, both_done) \<and>
   root_ready late_failure 0 = Fetched True \<and>
   fst (poll (steady b_retrying) (Suc (Suc 0)) 0 both_done) = [(''a'', done_snapshot ''a'' 100)] \<and>
   fst (snd (poll (steady b_retrying) (Suc (Suc 0)) 0 both_done)) =
     Aborted (RemoteError ''boom'') \<and>
   fst (snd (poll late_failure (Suc (Suc 0)) 0 two_tasks)) = Aborted (RemoteError ''boom'') \<and>
   map fst (fst (poll late_failure (Suc (Suc 0)) 0 two_tasks)) = [''a'', ''b'', ''b'', ''a''] \<and>
   snd (iter_results (steady b_retrying) (Suc (Suc 0)) both_done) =
     Aborted (RemoteError ''boom'')"
  using remote_exception_propagates[of both_done "[''a'']" "''b''" "[]" b_retrying
      "[(''a'', done_snapshot ''a'' 100)]" "[''a'']" both_done "''RETRY''" "RemoteError ''boom''"
      "steady b_retrying" 0 "Suc 0" late_failure 0 two_tasks
      "[(''a'', done_snapshot ''a'' 100), (''b'', done_snapshot ''b'' 100),
        (''b'', done_snapshot ''b'' 100)]"]
  by (simp add: run_defs)




end
